theory Spec2Isabelle
  imports Main "HOL-Library.Sublist"
begin

section \<open>Python strings\<close>

text \<open>
  A Python \<open>str\<close> is modelled as a \<open>string\<close> whose characters are the code points below
  256.  The whitespace characters are the ones \<open>str.isspace\<close> accepts in that range; these
  are the characters \<open>str.strip()\<close> and \<open>str.split()\<close> (both called without argument)
  remove and split at.
\<close>

definition whitespace :: "char list" where
  "whitespace =
     [CHR 0x09, CHR 0x0A, CHR 0x0B, CHR 0x0C, CHR 0x0D, CHR 0x1C, CHR 0x1D, CHR 0x1E,
      CHR 0x1F, CHR 0x20, CHR 0x85, CHR 0xA0]"

definition isspace :: "char \<Rightarrow> bool" where
  "isspace c = (c \<in> set whitespace)"

text \<open>\<open>s.strip()\<close>: whitespace is removed at both ends.\<close>

definition str_strip :: "string \<Rightarrow> string" where
  "str_strip s = rev (dropWhile isspace (rev (dropWhile isspace s)))"

text \<open>
  \<open>s.split()\<close>: skip whitespace, read a word up to the next whitespace character, repeat.
  No empty word is produced.
\<close>

function str_split :: "string \<Rightarrow> string list" where
  "str_split s =
     (case dropWhile isspace s of
        [] \<Rightarrow> []
      | c # cs \<Rightarrow> (c # takeWhile (\<lambda>x. \<not> isspace x) cs) # str_split (dropWhile (\<lambda>x. \<not> isspace x) cs))"
  by pat_completeness auto

termination str_split
proof (relation "measure length")
  show "wf (measure length)" by simp
next
  fix s :: string and c cs
  assume front: "dropWhile isspace s = c # cs"
  have "length (dropWhile (\<lambda>x. \<not> isspace x) cs) \<le> length cs"
    by (rule length_dropWhile_le)
  moreover have "length (dropWhile isspace s) \<le> length s"
    by (rule length_dropWhile_le)
  ultimately show "(dropWhile (\<lambda>x. \<not> isspace x) cs, s) \<in> measure length"
    using front by simp
qed

declare str_split.simps [simp del]

text \<open>\<open>sep.join(ws)\<close>.\<close>

fun str_join :: "string \<Rightarrow> string list \<Rightarrow> string" where
  "str_join sep [] = []"
| "str_join sep [w] = w"
| "str_join sep (w # v # ws) = w @ sep @ str_join sep (v # ws)"

section \<open>The data model\<close>

text \<open>
  Entries, sequences (the \<open>deque\<close> and the \<open>list\<close> of a buffer, and every list handed to
  a caller) and buffers are Python objects: they live in a store and are known by their
  address.  The store is total; \<open>lim\<close> is the next free address, and no address is given
  out twice.
\<close>

type_synonym addr = nat

record TranscriptEntry =
  "text" :: string
  timestamp :: int

record TranscriptBuffer =
  entries :: addr
  full_entries :: addr

record TranscriptBufferService =
  buffers :: "string \<Rightarrow> addr option"
  buffer_objs :: "addr \<Rightarrow> TranscriptBuffer"
  seq_objs :: "addr \<Rightarrow> addr list"
  entry_objs :: "addr \<Rightarrow> TranscriptEntry"
  lim :: addr

definition BUFFER_WINDOW_MS :: int where
  "BUFFER_WINDOW_MS = 30000"

text \<open>\<open>TranscriptBufferService()\<close>: no buffer, nothing allocated.\<close>

definition TranscriptBufferService_init :: TranscriptBufferService where
  "TranscriptBufferService_init =
     \<lparr>buffers = (\<lambda>_. None),
      buffer_objs = (\<lambda>_. \<lparr>entries = 0, full_entries = 0\<rparr>),
      seq_objs = (\<lambda>_. []),
      entry_objs = (\<lambda>_. \<lparr>text = [], timestamp = 0\<rparr>),
      lim = 0\<rparr>"

text \<open>Allocation of a sequence object (\<open>deque()\<close>, \<open>[]\<close>, \<open>list(xs)\<close>) and of an entry.\<close>

definition alloc_seq :: "addr list \<Rightarrow> TranscriptBufferService \<Rightarrow> addr \<times> TranscriptBufferService" where
  "alloc_seq xs s = (lim s, s\<lparr>seq_objs := (seq_objs s)(lim s := xs), lim := Suc (lim s)\<rparr>)"

definition alloc_entry :: "TranscriptEntry \<Rightarrow> TranscriptBufferService \<Rightarrow> addr \<times> TranscriptBufferService" where
  "alloc_entry e s = (lim s, s\<lparr>entry_objs := (entry_objs s)(lim s := e), lim := Suc (lim s)\<rparr>)"

text \<open>
  \<open>TranscriptBuffer()\<close>: the object is allocated, then \<open>__init__\<close> creates its deque and
  its list.  The lock is not modelled: no operation awaits anything inside its critical
  section, so on the event loop every operation below runs from start to end alone.
\<close>

definition TranscriptBuffer_init :: "TranscriptBufferService \<Rightarrow> addr \<times> TranscriptBufferService" where
  "TranscriptBuffer_init s =
     (let b = lim s;
          s0 = s\<lparr>lim := Suc b\<rparr>;
          (d, s1) = alloc_seq [] s0;
          (l, s2) = alloc_seq [] s1
      in (b, s2\<lparr>buffer_objs := (buffer_objs s2)(b := \<lparr>entries = d, full_entries = l\<rparr>)\<rparr>))"

section \<open>The operations\<close>

definition init_meeting :: "TranscriptBufferService \<Rightarrow> string \<Rightarrow> TranscriptBufferService" where
  "init_meeting s meeting_id =
     (case buffers s meeting_id of
        Some b \<Rightarrow> s
      | None \<Rightarrow> (let (b, s1) = TranscriptBuffer_init s in s1\<lparr>buffers := (buffers s1)(meeting_id \<mapsto> b)\<rparr>))"

definition normalize_text :: "string \<Rightarrow> string" where
  "normalize_text txt =
     (let cleaned = str_join '' '' (str_split (str_strip txt))
      in if cleaned = [] then []
         else if last cleaned \<notin> set ''.!?'' then cleaned @ ''.''
         else cleaned)"

text \<open>The loop of \<open>_prune\<close>: \<open>popleft()\<close> while the front entry is older than the cutoff.\<close>

fun popleft_while :: "(addr \<Rightarrow> TranscriptEntry) \<Rightarrow> int \<Rightarrow> addr list \<Rightarrow> addr list" where
  "popleft_while h cutoff [] = []"
| "popleft_while h cutoff (e # es) =
     (if timestamp (h e) < cutoff then popleft_while h cutoff es else e # es)"

definition prune :: "TranscriptBufferService \<Rightarrow> addr \<Rightarrow> int \<Rightarrow> TranscriptBufferService" where
  "prune s b current_ts =
     (let cutoff = current_ts - BUFFER_WINDOW_MS;
          d = entries (buffer_objs s b)
      in s\<lparr>seq_objs := (seq_objs s)(d := popleft_while (entry_objs s) cutoff (seq_objs s d))\<rparr>)"

text \<open>\<open>q.append(e)\<close> and \<open>q.clear()\<close> on the sequence at address \<open>q\<close>.\<close>

definition seq_append :: "addr \<Rightarrow> addr \<Rightarrow> TranscriptBufferService \<Rightarrow> TranscriptBufferService" where
  "seq_append q e s = s\<lparr>seq_objs := (seq_objs s)(q := seq_objs s q @ [e])\<rparr>"

definition seq_clear :: "addr \<Rightarrow> TranscriptBufferService \<Rightarrow> TranscriptBufferService" where
  "seq_clear q s = s\<lparr>seq_objs := (seq_objs s)(q := [])\<rparr>"

text \<open>
  \<open>_store_transcript\<close>.  The result is the address of the stored entry, or \<open>None\<close>.  The
  label is used for printing only and is left out.
\<close>

definition store_transcript ::
  "TranscriptBufferService \<Rightarrow> string \<Rightarrow> string \<Rightarrow> int \<Rightarrow> bool \<Rightarrow> addr option \<times> TranscriptBufferService" where
  "store_transcript s meeting_id txt ts allow_duplicates =
     (let (b, s1) =
            (case buffers s meeting_id of
               Some b \<Rightarrow> (b, s)
             | None \<Rightarrow> (let (b, s') = TranscriptBuffer_init s
                        in (b, s'\<lparr>buffers := (buffers s')(meeting_id \<mapsto> b)\<rparr>)));
          normalized = normalize_text txt
      in if normalized = [] then (None, s1)
         else if \<not> allow_duplicates \<and> seq_objs s1 (entries (buffer_objs s1 b)) \<noteq> [] \<and>
                 text (entry_objs s1 (last (seq_objs s1 (entries (buffer_objs s1 b))))) = normalized
         then (None, s1)
         else (let (e, s2) = alloc_entry \<lparr>text = normalized, timestamp = ts\<rparr> s1;
                   s3 = prune s2 b (timestamp (entry_objs s2 e));
                   s4 = seq_append (entries (buffer_objs s3 b)) e s3;
                   s5 = seq_append (full_entries (buffer_objs s4 b)) e s4
               in (Some e, s5)))"

definition add_final_transcript ::
  "TranscriptBufferService \<Rightarrow> string \<Rightarrow> string \<Rightarrow> int \<Rightarrow> addr option \<times> TranscriptBufferService" where
  "add_final_transcript s meeting_id txt ts = store_transcript s meeting_id txt ts False"

definition add_partial_transcript ::
  "TranscriptBufferService \<Rightarrow> string \<Rightarrow> string \<Rightarrow> int \<Rightarrow> addr option \<times> TranscriptBufferService" where
  "add_partial_transcript s meeting_id txt ts = store_transcript s meeting_id txt ts True"

definition clear_meeting :: "TranscriptBufferService \<Rightarrow> string \<Rightarrow> TranscriptBufferService" where
  "clear_meeting s meeting_id =
     (case buffers s meeting_id of
        None \<Rightarrow> s
      | Some b \<Rightarrow>
          (let s1 = s\<lparr>buffers := (buffers s)(meeting_id := None)\<rparr>;
               s2 = seq_clear (entries (buffer_objs s1 b)) s1
           in seq_clear (full_entries (buffer_objs s2 b)) s2))"

text \<open>
  The retrievals return the address of a new list.  \<open>now\<close> is the wall clock,
  \<open>int(time.time() * 1000)\<close>, read by \<open>get_recent_entries\<close>.
\<close>

definition get_recent_entries ::
  "TranscriptBufferService \<Rightarrow> string \<Rightarrow> int \<Rightarrow> addr \<times> TranscriptBufferService" where
  "get_recent_entries s meeting_id now =
     (case buffers s meeting_id of
        None \<Rightarrow> alloc_seq [] s
      | Some b \<Rightarrow>
          (let s1 = prune s b now
           in alloc_seq (seq_objs s1 (entries (buffer_objs s1 b))) s1))"

definition get_full_entries ::
  "TranscriptBufferService \<Rightarrow> string \<Rightarrow> addr \<times> TranscriptBufferService" where
  "get_full_entries s meeting_id =
     (case buffers s meeting_id of
        None \<Rightarrow> alloc_seq [] s
      | Some b \<Rightarrow> alloc_seq (seq_objs s (full_entries (buffer_objs s b))) s)"

section \<open>Views, callers and runs\<close>

text \<open>
  The two views of a meeting, as sequences of entry addresses: what the buffer of the
  meeting holds, and nothing for a meeting without buffer.
\<close>

definition recent_view :: "TranscriptBufferService \<Rightarrow> string \<Rightarrow> addr list" where
  "recent_view s meeting_id =
     (case buffers s meeting_id of
        None \<Rightarrow> []
      | Some b \<Rightarrow> seq_objs s (entries (buffer_objs s b)))"

definition history_view :: "TranscriptBufferService \<Rightarrow> string \<Rightarrow> addr list" where
  "history_view s meeting_id =
     (case buffers s meeting_id of
        None \<Rightarrow> []
      | Some b \<Rightarrow> seq_objs s (full_entries (buffer_objs s b)))"

text \<open>The entries, by value, of the sequence at an address.\<close>

definition contents :: "TranscriptBufferService \<Rightarrow> addr \<Rightarrow> TranscriptEntry list" where
  "contents s q = map (entry_objs s) (seq_objs s q)"

text \<open>
  What a caller can do to an object it was handed: change a list in place (any of
  \<open>append\<close>, \<open>pop\<close>, \<open>clear\<close>, item assignment, \<open>sort\<close> leaves some sequence \<open>xs\<close> at the
  address of the list), and assign to a field of an entry (the dataclass is not frozen).
\<close>

definition caller_mutates_list :: "TranscriptBufferService \<Rightarrow> addr \<Rightarrow> addr list \<Rightarrow> TranscriptBufferService" where
  "caller_mutates_list s q xs = s\<lparr>seq_objs := (seq_objs s)(q := xs)\<rparr>"

definition caller_sets_text :: "TranscriptBufferService \<Rightarrow> addr \<Rightarrow> string \<Rightarrow> TranscriptBufferService" where
  "caller_sets_text s e txt = s\<lparr>entry_objs := (entry_objs s)(e := (entry_objs s e)\<lparr>text := txt\<rparr>)\<rparr>"

text \<open>The calls of the service, and the state after a sequence of calls on a new service.\<close>

datatype call =
    InitMeeting string
  | AddFinal string string int
  | AddPartial string string int
  | ClearMeeting string
  | GetRecent string int
  | GetFull string

fun step :: "TranscriptBufferService \<Rightarrow> call \<Rightarrow> TranscriptBufferService" where
  "step s (InitMeeting m) = init_meeting s m"
| "step s (AddFinal m txt ts) = snd (add_final_transcript s m txt ts)"
| "step s (AddPartial m txt ts) = snd (add_partial_transcript s m txt ts)"
| "step s (ClearMeeting m) = clear_meeting s m"
| "step s (GetRecent m now) = snd (get_recent_entries s m now)"
| "step s (GetFull m) = snd (get_full_entries s m)"

definition run :: "call list \<Rightarrow> TranscriptBufferService" where
  "run cs = foldl step TranscriptBufferService_init cs"

text \<open>
  The shape of the store in every state a run reaches: the objects of a registered buffer
  are allocated, its deque and its list are two objects, what the deque holds is the end
  of what the list holds, and two meetings share neither a buffer, nor a sequence, nor
  an entry.
\<close>

definition invar :: "TranscriptBufferService \<Rightarrow> bool" where
  "invar s \<longleftrightarrow>
     (\<forall>m b. buffers s m = Some b \<longrightarrow>
        b < lim s \<and>
        entries (buffer_objs s b) < lim s \<and>
        full_entries (buffer_objs s b) < lim s \<and>
        entries (buffer_objs s b) \<noteq> full_entries (buffer_objs s b) \<and>
        (\<forall>e \<in> set (seq_objs s (full_entries (buffer_objs s b))). e < lim s) \<and>
        suffix (seq_objs s (entries (buffer_objs s b))) (seq_objs s (full_entries (buffer_objs s b)))) \<and>
     (\<forall>m m' b b'. m \<noteq> m' \<longrightarrow> buffers s m = Some b \<longrightarrow> buffers s m' = Some b' \<longrightarrow>
        b \<noteq> b' \<and>
        entries (buffer_objs s b) \<noteq> entries (buffer_objs s b') \<and>
        entries (buffer_objs s b) \<noteq> full_entries (buffer_objs s b') \<and>
        full_entries (buffer_objs s b) \<noteq> entries (buffer_objs s b') \<and>
        full_entries (buffer_objs s b) \<noteq> full_entries (buffer_objs s b') \<and>
        set (seq_objs s (full_entries (buffer_objs s b))) \<inter>
          set (seq_objs s (full_entries (buffer_objs s b'))) = {})"

text \<open>
  Two groups of statements of the source, named for the proofs: the creation and
  registration of a buffer for a meeting that has none (\<open>init_meeting\<close>, and the first lines
  of \<open>_store_transcript\<close>), and the critical section of \<open>_store_transcript\<close> that stores the
  entry \<open>v\<close> in the buffer \<open>b\<close>.
\<close>

definition register_new :: "TranscriptBufferService \<Rightarrow> string \<Rightarrow> TranscriptBufferService" where
  "register_new s m =
     s\<lparr>lim := Suc (Suc (Suc (lim s))),
       seq_objs := (seq_objs s)(Suc (lim s) := [], Suc (Suc (lim s)) := []),
       buffer_objs := (buffer_objs s)(lim s := \<lparr>entries = Suc (lim s), full_entries = Suc (Suc (lim s))\<rparr>),
       buffers := (buffers s)(m \<mapsto> lim s)\<rparr>"

definition commit :: "TranscriptBufferService \<Rightarrow> addr \<Rightarrow> TranscriptEntry \<Rightarrow> TranscriptBufferService" where
  "commit s b v =
     (let e = lim s; d = entries (buffer_objs s b); l = full_entries (buffer_objs s b);
          h = (entry_objs s)(e := v);
          q = (seq_objs s)(d := popleft_while h (timestamp v - BUFFER_WINDOW_MS) (seq_objs s d) @ [e])
      in s\<lparr>entry_objs := h, lim := Suc e, seq_objs := q(l := q l @ [e])\<rparr>)"

text \<open>The meeting a call is about.\<close>

fun meeting_of :: "call \<Rightarrow> string" where
  "meeting_of (InitMeeting m) = m"
| "meeting_of (AddFinal m txt ts) = m"
| "meeting_of (AddPartial m txt ts) = m"
| "meeting_of (ClearMeeting m) = m"
| "meeting_of (GetRecent m now) = m"
| "meeting_of (GetFull m) = m"

text \<open>
  An address \<open>q\<close> is unowned when it is allocated and is neither the deque nor the list of
  a registered buffer: the case of a list that a retrieval has handed to its caller.
\<close>

definition unowned :: "TranscriptBufferService \<Rightarrow> addr \<Rightarrow> bool" where
  "unowned s q \<longleftrightarrow>
     q < lim s \<and>
     (\<forall>m b. buffers s m = Some b \<longrightarrow>
        q \<noteq> entries (buffer_objs s b) \<and> q \<noteq> full_entries (buffer_objs s b))"

section \<open>Normalization, in the words of the specification\<close>

text \<open>
  The specification describes normalization as three steps: every run of whitespace is
  collapsed to a single space, leading and trailing whitespace is trimmed, and a full stop
  is appended to a result that is not empty and does not already end in \<open>.\<close>, \<open>!\<close> or
  \<open>?\<close>.  The definitions below say exactly this and are independent of \<open>normalize_text\<close>,
  with which they are compared later.
\<close>

function collapse_whitespace :: "string \<Rightarrow> string" where
  "collapse_whitespace [] = []"
| "collapse_whitespace (c # cs) =
     (if isspace c then CHR '' '' # collapse_whitespace (dropWhile isspace cs)
      else c # collapse_whitespace cs)"
  by pat_completeness auto

termination collapse_whitespace
proof (relation "measure length")
  show "wf (measure length)" by simp
next
  fix c :: char and cs :: string
  have "length (dropWhile isspace cs) \<le> length cs" by (rule length_dropWhile_le)
  then show "(dropWhile isspace cs, c # cs) \<in> measure length" by simp
next
  fix c :: char and cs :: string
  show "(cs, c # cs) \<in> measure length" by simp
qed

definition ltrim :: "string \<Rightarrow> string" where
  "ltrim s = dropWhile isspace s"

definition rtrim :: "string \<Rightarrow> string" where
  "rtrim s = rev (dropWhile isspace (rev s))"

definition trim :: "string \<Rightarrow> string" where
  "trim s = rtrim (ltrim s)"

definition normalize_spec :: "string \<Rightarrow> string" where
  "normalize_spec txt =
     (let r = trim (collapse_whitespace txt)
      in if r \<noteq> [] \<and> last r \<noteq> CHR ''.'' \<and> last r \<noteq> CHR ''!'' \<and> last r \<noteq> CHR ''?''
         then r @ ''.'' else r)"

section \<open>The store of a reachable state\<close>


lemma popleft_while_dropWhile:
  "popleft_while h c xs = dropWhile (\<lambda>e. timestamp (h e) < c) xs"
  by (induction xs) auto

lemma suffix_popleft_while: "suffix (popleft_while h c xs) xs"
  by (simp add: popleft_while_dropWhile suffix_dropWhile)

lemma set_popleft_while: "set (popleft_while h c xs) \<subseteq> set xs"
  by (simp add: popleft_while_dropWhile set_dropWhileD subsetI)

lemma TranscriptBuffer_init_eq:
  "TranscriptBuffer_init s =
     (lim s,
      s\<lparr>lim := Suc (Suc (Suc (lim s))),
        seq_objs := (seq_objs s)(Suc (lim s) := [], Suc (Suc (lim s)) := []),
        buffer_objs := (buffer_objs s)(lim s := \<lparr>entries = Suc (lim s), full_entries = Suc (Suc (lim s))\<rparr>)\<rparr>)"
  by (simp add: TranscriptBuffer_init_def alloc_seq_def Let_def)

lemma invar_init: "invar TranscriptBufferService_init"
  by (simp add: invar_def TranscriptBufferService_init_def)

lemma invarD1:
  "invar s \<Longrightarrow> buffers s m = Some b \<Longrightarrow>
     b < lim s \<and> entries (buffer_objs s b) < lim s \<and> full_entries (buffer_objs s b) < lim s \<and>
     entries (buffer_objs s b) \<noteq> full_entries (buffer_objs s b)"
  unfolding invar_def by blast

lemma invarD_hist:
  "invar s \<Longrightarrow> buffers s m = Some b \<Longrightarrow> e \<in> set (seq_objs s (full_entries (buffer_objs s b))) \<Longrightarrow> e < lim s"
  unfolding invar_def by blast

lemma invarD_suffix:
  "invar s \<Longrightarrow> buffers s m = Some b \<Longrightarrow>
     suffix (seq_objs s (entries (buffer_objs s b))) (seq_objs s (full_entries (buffer_objs s b)))"
  unfolding invar_def by blast

lemma invarD2:
  "invar s \<Longrightarrow> m \<noteq> m' \<Longrightarrow> buffers s m = Some b \<Longrightarrow> buffers s m' = Some b' \<Longrightarrow>
     b \<noteq> b' \<and>
     entries (buffer_objs s b) \<noteq> entries (buffer_objs s b') \<and>
     entries (buffer_objs s b) \<noteq> full_entries (buffer_objs s b') \<and>
     full_entries (buffer_objs s b) \<noteq> entries (buffer_objs s b') \<and>
     full_entries (buffer_objs s b) \<noteq> full_entries (buffer_objs s b') \<and>
     set (seq_objs s (full_entries (buffer_objs s b))) \<inter>
       set (seq_objs s (full_entries (buffer_objs s b'))) = {}"
  unfolding invar_def by blast

lemma invarI:
  assumes "\<And>m b. buffers s m = Some b \<Longrightarrow>
     b < lim s \<and> entries (buffer_objs s b) < lim s \<and> full_entries (buffer_objs s b) < lim s \<and>
     entries (buffer_objs s b) \<noteq> full_entries (buffer_objs s b)"
    and "\<And>m b e. buffers s m = Some b \<Longrightarrow> e \<in> set (seq_objs s (full_entries (buffer_objs s b))) \<Longrightarrow> e < lim s"
    and "\<And>m b. buffers s m = Some b \<Longrightarrow>
     suffix (seq_objs s (entries (buffer_objs s b))) (seq_objs s (full_entries (buffer_objs s b)))"
    and "\<And>m m' b b'. m \<noteq> m' \<Longrightarrow> buffers s m = Some b \<Longrightarrow> buffers s m' = Some b' \<Longrightarrow>
     b \<noteq> b' \<and>
     entries (buffer_objs s b) \<noteq> entries (buffer_objs s b') \<and>
     entries (buffer_objs s b) \<noteq> full_entries (buffer_objs s b') \<and>
     full_entries (buffer_objs s b) \<noteq> entries (buffer_objs s b') \<and>
     full_entries (buffer_objs s b) \<noteq> full_entries (buffer_objs s b') \<and>
     set (seq_objs s (full_entries (buffer_objs s b))) \<inter>
       set (seq_objs s (full_entries (buffer_objs s b'))) = {}"
  shows "invar s"
  unfolding invar_def using assms by blast

lemma invar_register_new:
  assumes I: "invar s" and N: "buffers s m = None"
  shows "invar (register_new s m)"
proof (rule invarI, goal_cases)
  case (1 m1 b1)
  then show ?case using invarD1[OF I, of m1 b1] by (auto simp: register_new_def split: if_splits)
next
  case (2 m1 b1 e)
  then show ?case using invarD1[OF I, of m1 b1] invarD_hist[OF I, of m1 b1 e] by (auto simp: register_new_def split: if_splits)
next
  case (3 m1 b1)
  then show ?case using invarD1[OF I, of m1 b1] invarD_suffix[OF I, of m1 b1] by (auto simp: register_new_def split: if_splits)
next
  case (4 m1 m2 b1 b2)
  then show ?case using invarD1[OF I, of m1 b1] invarD1[OF I, of m2 b2] invarD2[OF I, of m1 m2 b1 b2]
    by (auto simp: register_new_def split: if_splits)
qed


lemma init_meeting_eq:
  "init_meeting s m = (case buffers s m of Some b \<Rightarrow> s | None \<Rightarrow> register_new s m)"
  by (simp add: init_meeting_def TranscriptBuffer_init_eq register_new_def split: option.splits)

lemma buffers_register_new [simp]: "buffers (register_new s m) m = Some (lim s)"
  by (simp add: register_new_def)

lemma store_transcript_None:
  "buffers s m = None \<Longrightarrow>
     store_transcript s m txt ts ad = store_transcript (register_new s m) m txt ts ad"
  by (simp add: store_transcript_def TranscriptBuffer_init_eq register_new_def)

lemma store_transcript_Some:
  "buffers s m = Some b \<Longrightarrow>
     store_transcript s m txt ts ad =
       (if normalize_text txt = [] \<or>
           (\<not> ad \<and> seq_objs s (entries (buffer_objs s b)) \<noteq> [] \<and>
            text (entry_objs s (last (seq_objs s (entries (buffer_objs s b))))) = normalize_text txt)
        then (None, s)
        else (Some (lim s), commit s b \<lparr>text = normalize_text txt, timestamp = ts\<rparr>))"
  by (simp add: store_transcript_def alloc_entry_def prune_def seq_append_def commit_def Let_def)


lemma commit_fields [simp]:
  "buffers (commit s b v) = buffers s"
  "buffer_objs (commit s b v) = buffer_objs s"
  "lim (commit s b v) = Suc (lim s)"
  "entry_objs (commit s b v) = (entry_objs s)(lim s := v)"
  by (simp_all add: commit_def Let_def)

lemma commit_seq_deque:
  "entries (buffer_objs s b) \<noteq> full_entries (buffer_objs s b) \<Longrightarrow>
     seq_objs (commit s b v) (entries (buffer_objs s b)) =
       popleft_while ((entry_objs s)(lim s := v)) (timestamp v - BUFFER_WINDOW_MS)
         (seq_objs s (entries (buffer_objs s b))) @ [lim s]"
  by (simp add: commit_def Let_def)

lemma commit_seq_list:
  "entries (buffer_objs s b) \<noteq> full_entries (buffer_objs s b) \<Longrightarrow>
     seq_objs (commit s b v) (full_entries (buffer_objs s b)) =
       seq_objs s (full_entries (buffer_objs s b)) @ [lim s]"
  by (simp add: commit_def Let_def)

lemma commit_seq_other:
  "q \<noteq> entries (buffer_objs s b) \<Longrightarrow> q \<noteq> full_entries (buffer_objs s b) \<Longrightarrow>
     seq_objs (commit s b v) q = seq_objs s q"
  by (simp add: commit_def Let_def)

lemma invar_commit:
  assumes I: "invar s" and B: "buffers s m = Some b"
  shows "invar (commit s b v)"
proof (rule invarI, goal_cases)
  case (1 m1 b1)
  then show ?case using invarD1[OF I, of m1 b1] by auto
next
  case (2 m1 b1 e)
  show ?case
  proof (cases "m1 = m")
    case True
    with 2 B have "b1 = b" by simp
    with 2 invarD1[OF I B] invarD_hist[OF I B, of e] show ?thesis
      by (auto simp: commit_seq_list)
  next
    case False
    from 2 have B1: "buffers s m1 = Some b1" by simp
    from invarD2[OF I False B1 B] 2 have "e \<in> set (seq_objs s (full_entries (buffer_objs s b1)))"
      by (simp add: commit_seq_other)
    from invarD_hist[OF I B1 this] show ?thesis by simp
  qed
next
  case (3 m1 b1)
  show ?case
  proof (cases "m1 = m")
    case True
    with 3 B have "b1 = b" by simp
    moreover have "suffix (popleft_while ((entry_objs s)(lim s := v)) (timestamp v - BUFFER_WINDOW_MS)
         (seq_objs s (entries (buffer_objs s b)))) (seq_objs s (full_entries (buffer_objs s b)))"
      using suffix_popleft_while invarD_suffix[OF I B] by (rule suffix_order.trans)
    ultimately show ?thesis using invarD1[OF I B]
      by (simp add: commit_seq_list commit_seq_deque)
  next
    case False
    from 3 have B1: "buffers s m1 = Some b1" by simp
    from invarD2[OF I False B1 B] invarD_suffix[OF I B1] show ?thesis
      by (simp add: commit_seq_other)
  qed
next
  case (4 m1 m2 b1 b2)
  then have B1: "buffers s m1 = Some b1" and B2: "buffers s m2 = Some b2" and D: "m1 \<noteq> m2"
    by simp_all
  note old = invarD2[OF I D B1 B2]
  have fresh1: "lim s \<notin> set (seq_objs s (full_entries (buffer_objs s b1)))"
    using invarD_hist[OF I B1, of "lim s"] by auto
  have fresh2: "lim s \<notin> set (seq_objs s (full_entries (buffer_objs s b2)))"
    using invarD_hist[OF I B2, of "lim s"] by auto
  consider "m1 = m" "m2 \<noteq> m" | "m1 \<noteq> m" "m2 = m" | "m1 \<noteq> m" "m2 \<noteq> m"
    using D by blast
  then show ?case
  proof cases
    case 1
    with B B1 have [simp]: "b1 = b" by simp
    from invarD2[OF I 1(2) B2 B] invarD1[OF I B] old fresh2 show ?thesis
      by (simp add: commit_seq_other commit_seq_list)
  next
    case 2
    with B B2 have [simp]: "b2 = b" by simp
    from invarD2[OF I 2(1) B1 B] invarD1[OF I B] old fresh1 show ?thesis
      by (simp add: commit_seq_other commit_seq_list)
  next
    case 3
    from invarD2[OF I 3(1) B1 B] invarD2[OF I 3(2) B2 B] old show ?thesis
      by (simp add: commit_seq_other)
  qed
qed


lemma invar_shrink:
  assumes I: "invar s" and L: "lim s \<le> n"
    and F: "\<And>m1 b1. B' m1 = Some b1 \<Longrightarrow>
              buffers s m1 = Some b1 \<and>
              q (full_entries (buffer_objs s b1)) = seq_objs s (full_entries (buffer_objs s b1)) \<and>
              suffix (q (entries (buffer_objs s b1))) (seq_objs s (entries (buffer_objs s b1)))"
  shows "invar (s\<lparr>buffers := B', seq_objs := q, lim := n\<rparr>)"
proof (rule invarI, goal_cases)
  case (1 m1 b1)
  then have "B' m1 = Some b1" by simp
  from F[OF this] invarD1[OF I, of m1 b1] L show ?case by auto
next
  case (2 m1 b1 e)
  then have "B' m1 = Some b1" by simp
  from F[OF this] 2 invarD_hist[OF I, of m1 b1 e] L show ?case by auto
next
  case (3 m1 b1)
  then have "B' m1 = Some b1" by simp
  from F[OF this] invarD_suffix[OF I, of m1 b1] show ?case
    by (auto intro: suffix_order.trans)
next
  case (4 m1 m2 b1 b2)
  then have "B' m1 = Some b1" "B' m2 = Some b2" by simp_all
  from F[OF this(1)] F[OF this(2)] invarD2[OF I 4(1), of b1 b2] show ?case by simp
qed

lemma invar_prune:
  assumes I: "invar s" and B: "buffers s m = Some b"
  shows "invar (prune s b t)"
proof -
  let ?q = "(seq_objs s)(entries (buffer_objs s b) :=
              popleft_while (entry_objs s) (t - BUFFER_WINDOW_MS) (seq_objs s (entries (buffer_objs s b))))"
  have "invar (s\<lparr>buffers := buffers s, seq_objs := ?q, lim := lim s\<rparr>)"
  proof (rule invar_shrink[OF I])
    fix m1 b1 assume B1: "buffers s m1 = Some b1"
    show "buffers s m1 = Some b1 \<and>
          ?q (full_entries (buffer_objs s b1)) = seq_objs s (full_entries (buffer_objs s b1)) \<and>
          suffix (?q (entries (buffer_objs s b1))) (seq_objs s (entries (buffer_objs s b1)))"
    proof (cases "m1 = m")
      case True
      with B B1 have "b1 = b" by simp
      with B1 invarD1[OF I B] show ?thesis by (simp add: suffix_popleft_while)
    next
      case False
      from invarD2[OF I False B1 B] B1 show ?thesis by (simp add: suffix_popleft_while)
    qed
  qed simp
  then show ?thesis by (simp add: prune_def Let_def)
qed

lemma invar_alloc_seq:
  assumes I: "invar s"
  shows "invar (snd (alloc_seq xs s))"
proof -
  let ?q = "(seq_objs s)(lim s := xs)"
  have "invar (s\<lparr>buffers := buffers s, seq_objs := ?q, lim := Suc (lim s)\<rparr>)"
  proof (rule invar_shrink[OF I])
    fix m1 b1 assume B1: "buffers s m1 = Some b1"
    from invarD1[OF I B1] B1
    show "buffers s m1 = Some b1 \<and>
          ?q (full_entries (buffer_objs s b1)) = seq_objs s (full_entries (buffer_objs s b1)) \<and>
          suffix (?q (entries (buffer_objs s b1))) (seq_objs s (entries (buffer_objs s b1)))"
      by simp
  qed simp
  then show ?thesis by (simp add: alloc_seq_def)
qed

lemma invar_clear_meeting:
  assumes I: "invar s"
  shows "invar (clear_meeting s m)"
proof (cases "buffers s m")
  case None
  with I show ?thesis by (simp add: clear_meeting_def)
next
  case (Some b)
  let ?q = "(seq_objs s)(entries (buffer_objs s b) := [], full_entries (buffer_objs s b) := [])"
  have "invar (s\<lparr>buffers := (buffers s)(m := None), seq_objs := ?q, lim := lim s\<rparr>)"
  proof (rule invar_shrink[OF I])
    fix m1 b1 assume A: "((buffers s)(m := None)) m1 = Some b1"
    then have N: "m1 \<noteq> m" and B1: "buffers s m1 = Some b1" by (auto split: if_splits)
    from invarD2[OF I N B1 Some] B1
    show "buffers s m1 = Some b1 \<and>
          ?q (full_entries (buffer_objs s b1)) = seq_objs s (full_entries (buffer_objs s b1)) \<and>
          suffix (?q (entries (buffer_objs s b1))) (seq_objs s (entries (buffer_objs s b1)))"
      by simp
  qed simp
  with Some show ?thesis by (simp add: clear_meeting_def seq_clear_def Let_def)
qed

lemma invar_store_transcript:
  assumes I: "invar s"
  shows "invar (snd (store_transcript s m txt ts ad))"
proof (cases "buffers s m")
  case None
  have R: "invar (register_new s m)" using I None by (rule invar_register_new)
  have "invar (commit (register_new s m) (lim s) v)" for v
    using R buffers_register_new by (rule invar_commit)
  with R show ?thesis
    by (simp add: store_transcript_None[OF None] store_transcript_Some)
next
  case (Some b)
  have "invar (commit s b v)" for v
    using I Some by (rule invar_commit)
  with I Some show ?thesis by (simp add: store_transcript_Some)
qed

lemma invar_step: "invar s \<Longrightarrow> invar (step s c)"
proof (cases c)
  case (InitMeeting m)
  assume "invar s"
  then show ?thesis using InitMeeting
    by (simp add: init_meeting_eq invar_register_new split: option.splits)
next
  case (GetRecent m now)
  assume "invar s"
  then show ?thesis using GetRecent
    by (simp add: get_recent_entries_def Let_def invar_alloc_seq invar_prune split: option.splits)
next
  case (GetFull m)
  assume "invar s"
  then show ?thesis using GetFull
    by (simp add: get_full_entries_def invar_alloc_seq split: option.splits)
qed (simp_all add: add_final_transcript_def add_partial_transcript_def invar_store_transcript invar_clear_meeting)

lemma run_snoc: "run (cs @ [c]) = step (run cs) c"
  by (simp add: run_def)

lemma run_Nil: "run [] = TranscriptBufferService_init"
  by (simp add: run_def)

lemma invar_run: "invar (run cs)"
  by (induction cs rule: rev_induct) (simp_all add: run_snoc run_Nil invar_init invar_step)


lemma entry_objs_register_new [simp]: "entry_objs (register_new s m) = entry_objs s"
  by (simp add: register_new_def)

lemma lim_register_new [simp]: "lim (register_new s m) = Suc (Suc (Suc (lim s)))"
  by (simp add: register_new_def)

lemma recent_view_new [simp]: "recent_view (register_new s m) m = []"
  by (simp add: recent_view_def register_new_def)

lemma history_view_new [simp]: "history_view (register_new s m) m = []"
  by (simp add: history_view_def register_new_def)

lemma views_register_new_other:
  assumes I: "invar s" and D: "m' \<noteq> m"
  shows "recent_view (register_new s m) m' = recent_view s m'"
    and "history_view (register_new s m) m' = history_view s m'"
proof -
  show "recent_view (register_new s m) m' = recent_view s m'"
  proof (cases "buffers s m'")
    case None
    with D show ?thesis by (simp add: recent_view_def register_new_def)
  next
    case (Some b1)
    from invarD1[OF I Some] Some D show ?thesis
      by (simp add: recent_view_def register_new_def)
  qed
  show "history_view (register_new s m) m' = history_view s m'"
  proof (cases "buffers s m'")
    case None
    with D show ?thesis by (simp add: history_view_def register_new_def)
  next
    case (Some b1)
    from invarD1[OF I Some] Some D show ?thesis
      by (simp add: history_view_def register_new_def)
  qed
qed

lemma views_register_new:
  assumes I: "invar s" and N: "buffers s m = None"
  shows "recent_view (register_new s m) m' = recent_view s m'"
    and "history_view (register_new s m) m' = history_view s m'"
proof -
  have "recent_view s m = []" "history_view s m = []"
    using N by (simp_all add: recent_view_def history_view_def)
  then show "recent_view (register_new s m) m' = recent_view s m'"
    and "history_view (register_new s m) m' = history_view s m'"
    using views_register_new_other[OF I, of m' m] by (cases "m' = m"; simp)+
qed

lemma views_commit:
  assumes I: "invar s" and B: "buffers s m = Some b"
  shows "recent_view (commit s b v) m' =
           (if m' = m
            then popleft_while ((entry_objs s)(lim s := v)) (timestamp v - BUFFER_WINDOW_MS) (recent_view s m) @ [lim s]
            else recent_view s m')"
    and "history_view (commit s b v) m' =
           (if m' = m then history_view s m @ [lim s] else history_view s m')"
proof -
  have both: "recent_view (commit s b v) m' =
           (if m' = m
            then popleft_while ((entry_objs s)(lim s := v)) (timestamp v - BUFFER_WINDOW_MS) (recent_view s m) @ [lim s]
            else recent_view s m') \<and>
        history_view (commit s b v) m' =
           (if m' = m then history_view s m @ [lim s] else history_view s m')"
  proof (cases "m' = m")
    case True
    with B invarD1[OF I B] show ?thesis
      by (simp add: recent_view_def history_view_def commit_seq_deque commit_seq_list)
  next
    case False
    show ?thesis
    proof (cases "buffers s m'")
      case None
      with False show ?thesis by (simp add: recent_view_def history_view_def)
    next
      case (Some b1)
      from invarD2[OF I False Some B] Some False show ?thesis
        by (simp add: recent_view_def history_view_def commit_seq_other)
    qed
  qed
  from both show "recent_view (commit s b v) m' =
           (if m' = m
            then popleft_while ((entry_objs s)(lim s := v)) (timestamp v - BUFFER_WINDOW_MS) (recent_view s m) @ [lim s]
            else recent_view s m')" ..
  from both show "history_view (commit s b v) m' =
           (if m' = m then history_view s m @ [lim s] else history_view s m')" ..
qed

lemma views_clear_meeting:
  assumes I: "invar s"
  shows "recent_view (clear_meeting s m) m' = (if m' = m then [] else recent_view s m')"
    and "history_view (clear_meeting s m) m' = (if m' = m then [] else history_view s m')"
proof -
  have both: "recent_view (clear_meeting s m) m' = (if m' = m then [] else recent_view s m') \<and>
    history_view (clear_meeting s m) m' = (if m' = m then [] else history_view s m')"
  proof (cases "buffers s m")
    case None
    then show ?thesis by (simp add: clear_meeting_def recent_view_def history_view_def)
  next
    case (Some b)
    show ?thesis
    proof (cases "m' = m")
      case True
      with Some show ?thesis
        by (simp add: clear_meeting_def seq_clear_def Let_def recent_view_def history_view_def)
    next
      case False
      show ?thesis
      proof (cases "buffers s m'")
        case None
        with False Some show ?thesis
          by (simp add: clear_meeting_def seq_clear_def Let_def recent_view_def history_view_def)
      next
        case B1: (Some b1)
        from invarD2[OF I False B1 Some] B1 False Some show ?thesis
          by (simp add: clear_meeting_def seq_clear_def Let_def recent_view_def history_view_def)
      qed
    qed
  qed
  from both show "recent_view (clear_meeting s m) m' = (if m' = m then [] else recent_view s m')" ..
  from both show "history_view (clear_meeting s m) m' = (if m' = m then [] else history_view s m')" ..
qed

lemma views_alloc_seq:
  assumes I: "invar s"
  shows "recent_view (snd (alloc_seq xs s)) m' = recent_view s m'"
    and "history_view (snd (alloc_seq xs s)) m' = history_view s m'"
proof -
  have both: "recent_view (snd (alloc_seq xs s)) m' = recent_view s m' \<and>
     history_view (snd (alloc_seq xs s)) m' = history_view s m'"
  proof (cases "buffers s m'")
    case None
    then show ?thesis by (simp add: alloc_seq_def recent_view_def history_view_def)
  next
    case (Some b1)
    from invarD1[OF I Some] Some show ?thesis
      by (simp add: alloc_seq_def recent_view_def history_view_def)
  qed
  from both show "recent_view (snd (alloc_seq xs s)) m' = recent_view s m'" ..
  from both show "history_view (snd (alloc_seq xs s)) m' = history_view s m'" ..
qed

lemma views_prune:
  assumes I: "invar s" and B: "buffers s m = Some b"
  shows "recent_view (prune s b t) m' =
           (if m' = m then popleft_while (entry_objs s) (t - BUFFER_WINDOW_MS) (recent_view s m)
            else recent_view s m')"
    and "history_view (prune s b t) m' = history_view s m'"
proof -
  have both: "recent_view (prune s b t) m' =
           (if m' = m then popleft_while (entry_objs s) (t - BUFFER_WINDOW_MS) (recent_view s m)
            else recent_view s m') \<and>
         history_view (prune s b t) m' = history_view s m'"
  proof (cases "m' = m")
    case True
    with B invarD1[OF I B] show ?thesis
      by (simp add: prune_def Let_def recent_view_def history_view_def)
  next
    case False
    show ?thesis
    proof (cases "buffers s m'")
      case None
      with False show ?thesis by (simp add: prune_def Let_def recent_view_def history_view_def)
    next
      case (Some b1)
      from invarD2[OF I False Some B] Some False show ?thesis
        by (simp add: prune_def Let_def recent_view_def history_view_def)
    qed
  qed
  from both show "recent_view (prune s b t) m' =
           (if m' = m then popleft_while (entry_objs s) (t - BUFFER_WINDOW_MS) (recent_view s m)
            else recent_view s m')" ..
  from both show "history_view (prune s b t) m' = history_view s m'" ..
qed


lemma get_recent_entries_result:
  "fst (get_recent_entries s m now) = lim s"
  "lim (snd (get_recent_entries s m now)) = Suc (lim s)"
  "entry_objs (snd (get_recent_entries s m now)) = entry_objs s"
  "buffers (snd (get_recent_entries s m now)) = buffers s"
  "buffer_objs (snd (get_recent_entries s m now)) = buffer_objs s"
  by (simp_all add: get_recent_entries_def alloc_seq_def prune_def Let_def split: option.splits)

lemma get_full_entries_result:
  "fst (get_full_entries s m) = lim s"
  "lim (snd (get_full_entries s m)) = Suc (lim s)"
  "entry_objs (snd (get_full_entries s m)) = entry_objs s"
  "buffers (snd (get_full_entries s m)) = buffers s"
  "buffer_objs (snd (get_full_entries s m)) = buffer_objs s"
  by (simp_all add: get_full_entries_def alloc_seq_def split: option.splits)

lemma get_recent_entries_list:
  "seq_objs (snd (get_recent_entries s m now)) (fst (get_recent_entries s m now)) =
     popleft_while (entry_objs s) (now - BUFFER_WINDOW_MS) (recent_view s m)"
  by (simp add: get_recent_entries_def alloc_seq_def prune_def Let_def recent_view_def
      split: option.splits)

lemma get_full_entries_list:
  "seq_objs (snd (get_full_entries s m)) (fst (get_full_entries s m)) = history_view s m"
  by (simp add: get_full_entries_def alloc_seq_def history_view_def split: option.splits)

lemma views_get_recent_entries:
  assumes I: "invar s"
  shows "recent_view (snd (get_recent_entries s m now)) m' =
           (if m' = m then popleft_while (entry_objs s) (now - BUFFER_WINDOW_MS) (recent_view s m)
            else recent_view s m')"
    and "history_view (snd (get_recent_entries s m now)) m' = history_view s m'"
proof -
  have both: "recent_view (snd (get_recent_entries s m now)) m' =
           (if m' = m then popleft_while (entry_objs s) (now - BUFFER_WINDOW_MS) (recent_view s m)
            else recent_view s m') \<and>
      history_view (snd (get_recent_entries s m now)) m' = history_view s m'"
  proof (cases "buffers s m")
    case None
    then have "recent_view s m = []" by (simp add: recent_view_def)
    with None show ?thesis
      by (simp add: get_recent_entries_def views_alloc_seq[OF I])
  next
    case (Some b)
    have "invar (prune s b now)" using I Some by (rule invar_prune)
    with Some show ?thesis
      by (simp add: get_recent_entries_def Let_def views_alloc_seq views_prune[OF I Some])
  qed
  from both show "recent_view (snd (get_recent_entries s m now)) m' =
           (if m' = m then popleft_while (entry_objs s) (now - BUFFER_WINDOW_MS) (recent_view s m)
            else recent_view s m')" ..
  from both show "history_view (snd (get_recent_entries s m now)) m' = history_view s m'" ..
qed

lemma views_get_full_entries:
  assumes I: "invar s"
  shows "recent_view (snd (get_full_entries s m)) m' = recent_view s m'"
    and "history_view (snd (get_full_entries s m)) m' = history_view s m'"
  by (simp_all add: get_full_entries_def views_alloc_seq[OF I] split: option.splits)

lemma views_init_meeting:
  assumes I: "invar s"
  shows "recent_view (init_meeting s m) m' = recent_view s m'"
    and "history_view (init_meeting s m) m' = history_view s m'"
  by (simp_all add: init_meeting_eq views_register_new[OF I] split: option.splits)

lemma store_transcript_new:
  "buffers s m = None \<Longrightarrow>
     store_transcript s m txt ts ad =
       (if normalize_text txt = [] then (None, register_new s m)
        else (Some (Suc (Suc (Suc (lim s)))),
              commit (register_new s m) (lim s) \<lparr>text = normalize_text txt, timestamp = ts\<rparr>))"
  by (simp add: store_transcript_None store_transcript_Some[of _ _ "lim s"])
     (simp add: register_new_def)

lemma store_transcript_old:
  "buffers s m = Some b \<Longrightarrow>
     store_transcript s m txt ts ad =
       (if normalize_text txt = [] \<or>
           (\<not> ad \<and> recent_view s m \<noteq> [] \<and>
            text (entry_objs s (last (recent_view s m))) = normalize_text txt)
        then (None, s)
        else (Some (lim s), commit s b \<lparr>text = normalize_text txt, timestamp = ts\<rparr>))"
  by (simp add: store_transcript_Some recent_view_def)

text \<open>The decision of \<open>_store_transcript\<close>, in terms of the recent view.\<close>

lemma store_transcript_None_iff:
  "fst (store_transcript s m txt ts ad) = None \<longleftrightarrow>
     normalize_text txt = [] \<or>
     (\<not> ad \<and> recent_view s m \<noteq> [] \<and>
      text (entry_objs s (last (recent_view s m))) = normalize_text txt)"
proof (cases "buffers s m")
  case None
  moreover have "recent_view s m = []" using None by (simp add: recent_view_def)
  ultimately show ?thesis
    by (simp add: store_transcript_new)
next
  case (Some b)
  then show ?thesis by (simp add: store_transcript_old)
qed

lemma store_transcript_rejected:
  assumes I: "invar s" and R: "fst (store_transcript s m txt ts ad) = None"
  shows "recent_view (snd (store_transcript s m txt ts ad)) m' = recent_view s m'"
    and "history_view (snd (store_transcript s m txt ts ad)) m' = history_view s m'"
    and "entry_objs (snd (store_transcript s m txt ts ad)) = entry_objs s"
proof -
  have all3: "recent_view (snd (store_transcript s m txt ts ad)) m' = recent_view s m' \<and>
     history_view (snd (store_transcript s m txt ts ad)) m' = history_view s m' \<and>
     entry_objs (snd (store_transcript s m txt ts ad)) = entry_objs s"
  proof (cases "buffers s m")
    case None
    from R have "snd (store_transcript s m txt ts ad) = register_new s m"
      by (auto simp add: store_transcript_new[OF None] split: if_splits)
    then show ?thesis by (simp add: views_register_new[OF I None])
  next
    case (Some b)
    from R have "snd (store_transcript s m txt ts ad) = s"
      by (auto simp add: store_transcript_old[OF Some] split: if_splits)
    then show ?thesis by simp
  qed
  from all3 show "recent_view (snd (store_transcript s m txt ts ad)) m' = recent_view s m'" by simp
  from all3 show "history_view (snd (store_transcript s m txt ts ad)) m' = history_view s m'" by simp
  from all3 show "entry_objs (snd (store_transcript s m txt ts ad)) = entry_objs s" by simp
qed

lemma store_transcript_accepted:
  assumes I: "invar s" and R: "fst (store_transcript s m txt ts ad) = Some e"
  shows "lim s \<le> e \<and> lim (snd (store_transcript s m txt ts ad)) = Suc e \<and>
     entry_objs (snd (store_transcript s m txt ts ad)) =
       (entry_objs s)(e := \<lparr>text = normalize_text txt, timestamp = ts\<rparr>) \<and>
     recent_view (snd (store_transcript s m txt ts ad)) m' =
       (if m' = m
        then popleft_while (entry_objs (snd (store_transcript s m txt ts ad))) (ts - BUFFER_WINDOW_MS)
               (recent_view s m) @ [e]
        else recent_view s m') \<and>
     history_view (snd (store_transcript s m txt ts ad)) m' =
       (if m' = m then history_view s m @ [e] else history_view s m')"
proof (cases "buffers s m")
  case None
  have B: "buffers (register_new s m) m = Some (lim s)" by simp
  have I': "invar (register_new s m)" using I None by (rule invar_register_new)
  from R have E: "e = Suc (Suc (Suc (lim s)))"
    and S: "snd (store_transcript s m txt ts ad) =
       commit (register_new s m) (lim s) \<lparr>text = normalize_text txt, timestamp = ts\<rparr>"
    by (auto simp add: store_transcript_new[OF None] split: if_splits)
  have "recent_view s m = []" "history_view s m = []"
    using None by (simp_all add: recent_view_def history_view_def)
  then show ?thesis
    by (simp add: S E views_commit[OF I' B] views_register_new[OF I None])
next
  case (Some b)
  from R have E: "e = lim s"
    and S: "snd (store_transcript s m txt ts ad) =
       commit s b \<lparr>text = normalize_text txt, timestamp = ts\<rparr>"
    by (auto simp add: store_transcript_old[OF Some] split: if_splits)
  show ?thesis
    by (simp add: S E views_commit[OF I Some])
qed


lemma lim_step: "lim s \<le> lim (step s c)"
proof (cases c)
  case (InitMeeting m)
  then show ?thesis by (simp add: init_meeting_eq split: option.splits)
next
  case (AddFinal m tx ts)
  show ?thesis
    by (cases "buffers s m")
       (simp_all add: AddFinal add_final_transcript_def store_transcript_new store_transcript_old)
next
  case (AddPartial m tx ts)
  show ?thesis
    by (cases "buffers s m")
       (simp_all add: AddPartial add_partial_transcript_def store_transcript_new store_transcript_old)
next
  case (ClearMeeting m)
  then show ?thesis by (simp add: clear_meeting_def seq_clear_def Let_def split: option.splits)
next
  case (GetRecent m now)
  then show ?thesis by (simp add: get_recent_entries_result)
next
  case (GetFull m)
  then show ?thesis by (simp add: get_full_entries_result)
qed

section \<open>The views along a run\<close>

lemma last_suffix: "suffix xs ys \<Longrightarrow> xs \<noteq> [] \<Longrightarrow> ys \<noteq> [] \<and> last xs = last ys"
  by (auto simp: suffix_def)

lemma recent_suffix_history: "invar s \<Longrightarrow> suffix (recent_view s m) (history_view s m)"
  by (cases "buffers s m") (simp_all add: recent_view_def history_view_def invarD_suffix)

lemma history_below_lim: "invar s \<Longrightarrow> e \<in> set (history_view s m) \<Longrightarrow> e < lim s"
  by (cases "buffers s m") (auto simp: history_view_def dest: invarD_hist)

lemma recent_below_lim: "invar s \<Longrightarrow> e \<in> set (recent_view s m) \<Longrightarrow> e < lim s"
  using recent_suffix_history[of s m] history_below_lim[of s e m]
  by (auto simp: suffix_def)

lemma popleft_while_cong:
  "(\<And>x. x \<in> set xs \<Longrightarrow> timestamp (h x) = timestamp (h' x)) \<Longrightarrow>
     popleft_while h c xs = popleft_while h' c xs"
  by (induction xs) auto

lemma popleft_while_split:
  "\<exists>removed. xs = removed @ popleft_while h c xs \<and>
     (\<forall>e \<in> set removed. timestamp (h e) < c) \<and>
     (popleft_while h c xs \<noteq> [] \<longrightarrow> \<not> timestamp (h (hd (popleft_while h c xs))) < c)"
proof (induction xs)
  case Nil
  then show ?case by simp
next
  case (Cons x xs)
  show ?case
  proof (cases "timestamp (h x) < c")
    case True
    from Cons obtain removed where "xs = removed @ popleft_while h c xs"
      "\<forall>e \<in> set removed. timestamp (h e) < c"
      "popleft_while h c xs \<noteq> [] \<longrightarrow> \<not> timestamp (h (hd (popleft_while h c xs))) < c"
      by blast
    with True have "x # xs = (x # removed) @ popleft_while h c (x # xs) \<and>
       (\<forall>e \<in> set (x # removed). timestamp (h e) < c) \<and>
       (popleft_while h c (x # xs) \<noteq> [] \<longrightarrow> \<not> timestamp (h (hd (popleft_while h c (x # xs)))) < c)"
      by simp
    then show ?thesis by blast
  next
    case False
    then have "x # xs = [] @ popleft_while h c (x # xs) \<and>
       (\<forall>e \<in> set []. timestamp (h e) < c) \<and>
       (popleft_while h c (x # xs) \<noteq> [] \<longrightarrow> \<not> timestamp (h (hd (popleft_while h c (x # xs)))) < c)"
      by simp
    then show ?thesis by blast
  qed
qed

lemma store_transcript_accepted_recent:
  assumes I: "invar s" and R: "fst (store_transcript s m txt ts ad) = Some e"
  shows "recent_view (snd (store_transcript s m txt ts ad)) m =
           popleft_while (entry_objs s) (ts - BUFFER_WINDOW_MS) (recent_view s m) @ [e]"
proof -
  note A = store_transcript_accepted[OF I R, of m]
  have "popleft_while (entry_objs (snd (store_transcript s m txt ts ad))) (ts - BUFFER_WINDOW_MS) (recent_view s m)
      = popleft_while (entry_objs s) (ts - BUFFER_WINDOW_MS) (recent_view s m)"
  proof (rule popleft_while_cong)
    fix x assume "x \<in> set (recent_view s m)"
    from recent_below_lim[OF I this] A have "x \<noteq> e" by simp
    with A show "timestamp (entry_objs (snd (store_transcript s m txt ts ad)) x) = timestamp (entry_objs s x)"
      by simp
  qed
  with A show ?thesis by simp
qed

lemma run_append: "run (cs1 @ cs2) = foldl step (run cs1) cs2"
  by (simp add: run_def)

lemma invar_foldl_step: "invar s \<Longrightarrow> invar (foldl step s cs)"
  by (induction cs arbitrary: s) (simp_all add: invar_step)

lemma history_step:
  assumes I: "invar s"
  shows "history_view (step s c) m = history_view s m \<or>
         (\<exists>e. lim s \<le> e \<and> history_view (step s c) m = history_view s m @ [e]) \<or>
         c = ClearMeeting m \<and> history_view (step s c) m = []"
proof (cases c)
  case (InitMeeting m')
  then show ?thesis by (simp add: views_init_meeting[OF I])
next
  case (AddFinal m' tx ts)
  show ?thesis
  proof (cases "fst (store_transcript s m' tx ts False)")
    case None
    from store_transcript_rejected(2)[OF I None, of m] AddFinal show ?thesis
      by (simp add: add_final_transcript_def)
  next
    case (Some e)
    from store_transcript_accepted[OF I Some, of m] AddFinal show ?thesis
      by (auto simp add: add_final_transcript_def)
  qed
next
  case (AddPartial m' tx ts)
  show ?thesis
  proof (cases "fst (store_transcript s m' tx ts True)")
    case None
    from store_transcript_rejected(2)[OF I None, of m] AddPartial show ?thesis
      by (simp add: add_partial_transcript_def)
  next
    case (Some e)
    from store_transcript_accepted[OF I Some, of m] AddPartial show ?thesis
      by (auto simp add: add_partial_transcript_def)
  qed
next
  case (ClearMeeting m')
  then show ?thesis by (auto simp add: views_clear_meeting[OF I])
next
  case (GetRecent m' now)
  then show ?thesis by (simp add: views_get_recent_entries[OF I])
next
  case (GetFull m')
  then show ?thesis by (simp add: views_get_full_entries[OF I])
qed

lemma history_foldl_prefix:
  "invar s \<Longrightarrow> ClearMeeting m \<notin> set cs \<Longrightarrow>
     prefix (history_view s m) (history_view (foldl step s cs) m)"
proof (induction cs arbitrary: s)
  case Nil
  then show ?case by simp
next
  case (Cons c cs)
  from Cons.prems have N: "c \<noteq> ClearMeeting m" and R: "ClearMeeting m \<notin> set cs" by auto
  have "prefix (history_view s m) (history_view (step s c) m)"
    using history_step[OF Cons.prems(1), of c m] N by auto
  moreover have "prefix (history_view (step s c) m) (history_view (foldl step (step s c) cs) m)"
    using Cons.IH[OF invar_step[OF Cons.prems(1)] R] .
  ultimately show ?case by (simp add: prefix_order.trans)
qed

lemma contents_get_recent_entries:
  "contents (snd (get_recent_entries s m now)) (fst (get_recent_entries s m now)) =
     map (entry_objs s) (popleft_while (entry_objs s) (now - BUFFER_WINDOW_MS) (recent_view s m))"
  by (simp only: contents_def get_recent_entries_list get_recent_entries_result(3))

lemma contents_get_full_entries:
  "contents (snd (get_full_entries s m)) (fst (get_full_entries s m)) =
     map (entry_objs s) (history_view s m)"
  by (simp only: contents_def get_full_entries_list get_full_entries_result(3))

lemma views_unknown: "buffers s m = None \<Longrightarrow> recent_view s m = [] \<and> history_view s m = []"
  by (simp add: recent_view_def history_view_def)

lemma buffers_clear_meeting: "buffers (clear_meeting s m) m = None"
  by (simp add: clear_meeting_def seq_clear_def Let_def split: option.splits)

lemma lim_clear_meeting: "lim (clear_meeting s m) = lim s"
  by (simp add: clear_meeting_def seq_clear_def Let_def split: option.splits)

lemma views_step_other:
  assumes I: "invar s" and D: "meeting_of c \<noteq> B"
  shows "recent_view (step s c) B = recent_view s B \<and> history_view (step s c) B = history_view s B"
proof (cases c)
  case (InitMeeting m')
  then show ?thesis by (simp add: views_init_meeting[OF I])
next
  case (AddFinal m' tx ts)
  show ?thesis
  proof (cases "fst (store_transcript s m' tx ts False)")
    case None
    from store_transcript_rejected(1,2)[OF I None, of B] AddFinal show ?thesis
      by (simp add: add_final_transcript_def)
  next
    case (Some e)
    from store_transcript_accepted[OF I Some, of B] AddFinal D show ?thesis
      by (simp add: add_final_transcript_def)
  qed
next
  case (AddPartial m' tx ts)
  show ?thesis
  proof (cases "fst (store_transcript s m' tx ts True)")
    case None
    from store_transcript_rejected(1,2)[OF I None, of B] AddPartial show ?thesis
      by (simp add: add_partial_transcript_def)
  next
    case (Some e)
    from store_transcript_accepted[OF I Some, of B] AddPartial D show ?thesis
      by (simp add: add_partial_transcript_def)
  qed
next
  case (ClearMeeting m')
  with D show ?thesis by (simp add: views_clear_meeting[OF I])
next
  case (GetRecent m' now)
  with D show ?thesis by (simp add: views_get_recent_entries[OF I])
next
  case (GetFull m')
  then show ?thesis by (simp add: views_get_full_entries[OF I])
qed

lemma allocated_stays_out:
  "invar s \<Longrightarrow> e < lim s \<Longrightarrow> e \<notin> set (history_view s B) \<Longrightarrow>
     e \<notin> set (history_view (foldl step s cs) B)"
proof (induction cs arbitrary: s)
  case Nil
  then show ?case by simp
next
  case (Cons c cs)
  have "e < lim (step s c)" using Cons.prems(2) lim_step[of s c] by simp
  moreover have "e \<notin> set (history_view (step s c) B)"
    using history_step[OF Cons.prems(1), of c B] Cons.prems(2,3) by auto
  ultimately show ?case
    using Cons.IH[OF invar_step[OF Cons.prems(1)]] by simp
qed

lemma entry_objs_clear_meeting: "entry_objs (clear_meeting s m) = entry_objs s"
  by (simp add: clear_meeting_def seq_clear_def Let_def split: option.splits)

lemma entry_objs_store_transcript:
  "e < lim s \<Longrightarrow> entry_objs (snd (store_transcript s m txt ts ad)) e = entry_objs s e"
  by (cases "buffers s m") (simp_all add: store_transcript_new store_transcript_old)

lemma entry_objs_step: "e < lim s \<Longrightarrow> entry_objs (step s c) e = entry_objs s e"
proof (cases c)
  case (InitMeeting m)
  then show ?thesis by (simp add: init_meeting_eq split: option.splits)
next
  case (AddFinal m tx ts)
  assume "e < lim s"
  then show ?thesis by (simp add: AddFinal add_final_transcript_def entry_objs_store_transcript)
next
  case (AddPartial m tx ts)
  assume "e < lim s"
  then show ?thesis by (simp add: AddPartial add_partial_transcript_def entry_objs_store_transcript)
next
  case (ClearMeeting m)
  then show ?thesis by (simp add: entry_objs_clear_meeting)
next
  case (GetRecent m now)
  then show ?thesis by (simp add: get_recent_entries_result)
next
  case (GetFull m)
  then show ?thesis by (simp add: get_full_entries_result)
qed

lemma entry_objs_foldl_step: "e < lim s \<Longrightarrow> entry_objs (foldl step s cs) e = entry_objs s e"
proof (induction cs arbitrary: s)
  case Nil
  then show ?case by simp
next
  case (Cons c cs)
  from Cons.prems lim_step[of s c] have "e < lim (step s c)" by simp
  from Cons.IH[OF this] Cons.prems show ?case by (simp add: entry_objs_step)
qed

section \<open>A list in the hands of a caller\<close>

text \<open>
  Changing an unowned list commutes with every call of the service: no call reads or
  writes a sequence other than the deque and the list of a registered buffer and the
  ones it allocates itself.
\<close>

lemma mut_fields [simp]:
  "buffers (caller_mutates_list s q xs) = buffers s"
  "buffer_objs (caller_mutates_list s q xs) = buffer_objs s"
  "entry_objs (caller_mutates_list s q xs) = entry_objs s"
  "lim (caller_mutates_list s q xs) = lim s"
  by (simp_all add: caller_mutates_list_def)

lemma mut_seq_other: "a \<noteq> q \<Longrightarrow> seq_objs (caller_mutates_list s q xs) a = seq_objs s a"
  by (simp add: caller_mutates_list_def)

lemma views_mut:
  assumes U: "unowned s q"
  shows "recent_view (caller_mutates_list s q xs) m = recent_view s m"
    and "history_view (caller_mutates_list s q xs) m = history_view s m"
  using U by (auto simp: unowned_def recent_view_def history_view_def caller_mutates_list_def
      split: option.splits)

lemma register_new_mut:
  "q < lim s \<Longrightarrow> register_new (caller_mutates_list s q xs) m = caller_mutates_list (register_new s m) q xs"
  by (simp add: register_new_def caller_mutates_list_def fun_upd_twist)

lemma commit_mut:
  "q \<noteq> entries (buffer_objs s b) \<Longrightarrow> q \<noteq> full_entries (buffer_objs s b) \<Longrightarrow>
     commit (caller_mutates_list s q xs) b v = caller_mutates_list (commit s b v) q xs"
  by (simp add: commit_def caller_mutates_list_def Let_def fun_upd_twist)

lemma store_transcript_mut:
  assumes U: "unowned s q"
  shows "store_transcript (caller_mutates_list s q xs) m txt ts ad =
           (fst (store_transcript s m txt ts ad), caller_mutates_list (snd (store_transcript s m txt ts ad)) q xs)"
proof (cases "buffers s m")
  case None
  then have N': "buffers (caller_mutates_list s q xs) m = None" by simp
  from U have L: "q < lim s" by (simp add: unowned_def)
  then have "q \<noteq> entries (buffer_objs (register_new s m) (lim s))"
    "q \<noteq> full_entries (buffer_objs (register_new s m) (lim s))"
    by (simp_all add: register_new_def)
  then show ?thesis
    by (simp add: store_transcript_new[OF None] store_transcript_new[OF N'] register_new_mut[OF L] commit_mut)
next
  case (Some b)
  then have S': "buffers (caller_mutates_list s q xs) m = Some b" by simp
  from U Some have "q \<noteq> entries (buffer_objs s b)" "q \<noteq> full_entries (buffer_objs s b)"
    by (auto simp: unowned_def)
  then show ?thesis
    by (simp add: store_transcript_old[OF Some] store_transcript_old[OF S'] views_mut[OF U] commit_mut)
qed

lemma unowned_register_new:
  assumes I: "invar s" and U: "unowned s q"
  shows "unowned (register_new s m) q"
  unfolding unowned_def
proof (intro conjI allI impI)
  from U show "q < lim (register_new s m)" by (simp add: unowned_def)
next
  fix u b assume B: "buffers (register_new s m) u = Some b"
  show "q \<noteq> entries (buffer_objs (register_new s m) b)"
    and "q \<noteq> full_entries (buffer_objs (register_new s m) b)"
  proof -
    have "q \<noteq> entries (buffer_objs (register_new s m) b) \<and>
          q \<noteq> full_entries (buffer_objs (register_new s m) b)"
    proof (cases "u = m")
      case True
      with B U show ?thesis by (auto simp: register_new_def unowned_def)
    next
      case False
      with B have B': "buffers s u = Some b" by (simp add: register_new_def)
      from invarD1[OF I B'] U B' show ?thesis by (auto simp: register_new_def unowned_def)
    qed
    then show "q \<noteq> entries (buffer_objs (register_new s m) b)"
      and "q \<noteq> full_entries (buffer_objs (register_new s m) b)" by simp_all
  qed
qed

lemma unowned_commit: "unowned s q \<Longrightarrow> unowned (commit s b v) q"
  by (auto simp: unowned_def)

lemma unowned_store_transcript:
  assumes I: "invar s" and U: "unowned s q"
  shows "unowned (snd (store_transcript s m txt ts ad)) q"
proof (cases "buffers s m")
  case None
  from unowned_register_new[OF I U] show ?thesis
    by (simp add: store_transcript_new[OF None] unowned_commit)
next
  case (Some b)
  from U show ?thesis
    by (simp add: store_transcript_old[OF Some] unowned_commit)
qed

lemma unowned_clear_meeting: "unowned s q \<Longrightarrow> unowned (clear_meeting s m) q"
  by (auto simp: unowned_def clear_meeting_def seq_clear_def Let_def split: option.splits if_splits)

lemma unowned_alloc_seq: "unowned s q \<Longrightarrow> unowned (snd (alloc_seq xs s)) q"
  by (auto simp: unowned_def alloc_seq_def)

lemma unowned_prune: "unowned s q \<Longrightarrow> unowned (prune s b t) q"
  by (auto simp: unowned_def prune_def Let_def)

lemma unowned_step:
  assumes I: "invar s" and U: "unowned s q"
  shows "unowned (step s c) q"
proof (cases c)
  case (InitMeeting m)
  with unowned_register_new[OF I U] U show ?thesis
    by (simp add: init_meeting_eq split: option.splits)
next
  case (AddFinal m tx ts)
  with unowned_store_transcript[OF I U] show ?thesis by (simp add: add_final_transcript_def)
next
  case (AddPartial m tx ts)
  with unowned_store_transcript[OF I U] show ?thesis by (simp add: add_partial_transcript_def)
next
  case (ClearMeeting m)
  with unowned_clear_meeting[OF U] show ?thesis by simp
next
  case (GetRecent m now)
  with U show ?thesis
    by (simp add: get_recent_entries_def Let_def unowned_alloc_seq unowned_prune split: option.splits)
next
  case (GetFull m)
  with U show ?thesis
    by (simp add: get_full_entries_def unowned_alloc_seq split: option.splits)
qed

lemma clear_meeting_mut:
  assumes U: "unowned s q"
  shows "clear_meeting (caller_mutates_list s q xs) m = caller_mutates_list (clear_meeting s m) q xs"
proof (cases "buffers s m")
  case None
  then show ?thesis by (simp add: clear_meeting_def)
next
  case (Some b)
  from U Some have "q \<noteq> entries (buffer_objs s b)" "q \<noteq> full_entries (buffer_objs s b)"
    by (auto simp: unowned_def)
  with Some show ?thesis
    by (simp add: clear_meeting_def seq_clear_def Let_def caller_mutates_list_def fun_upd_twist)
qed

lemma get_full_entries_mut:
  assumes U: "unowned s q"
  shows "get_full_entries (caller_mutates_list s q xs) m =
           (fst (get_full_entries s m), caller_mutates_list (snd (get_full_entries s m)) q xs)"
proof (cases "buffers s m")
  case None
  with U show ?thesis
    by (simp add: get_full_entries_def alloc_seq_def caller_mutates_list_def unowned_def fun_upd_twist)
next
  case (Some b)
  from U Some have "q \<noteq> entries (buffer_objs s b)" "q \<noteq> full_entries (buffer_objs s b)" "q \<noteq> lim s"
    by (auto simp: unowned_def)
  with Some show ?thesis
    by (simp add: get_full_entries_def alloc_seq_def caller_mutates_list_def fun_upd_twist)
qed

lemma get_recent_entries_mut:
  assumes U: "unowned s q"
  shows "get_recent_entries (caller_mutates_list s q xs) m now =
           (fst (get_recent_entries s m now), caller_mutates_list (snd (get_recent_entries s m now)) q xs)"
proof (cases "buffers s m")
  case None
  with U show ?thesis
    by (simp add: get_recent_entries_def alloc_seq_def caller_mutates_list_def unowned_def fun_upd_twist)
next
  case (Some b)
  from U Some have "q \<noteq> entries (buffer_objs s b)" "q \<noteq> full_entries (buffer_objs s b)" "q \<noteq> lim s"
    by (auto simp: unowned_def)
  with Some show ?thesis
    by (simp add: get_recent_entries_def alloc_seq_def prune_def Let_def caller_mutates_list_def fun_upd_twist)
qed

lemma step_mut:
  assumes U: "unowned s q"
  shows "step (caller_mutates_list s q xs) c = caller_mutates_list (step s c) q xs"
proof (cases c)
  case (InitMeeting m)
  from U have "q < lim s" by (simp add: unowned_def)
  with InitMeeting show ?thesis
    by (simp add: init_meeting_eq register_new_mut split: option.splits)
next
  case (AddFinal m tx ts)
  then show ?thesis by (simp add: add_final_transcript_def store_transcript_mut[OF U])
next
  case (AddPartial m tx ts)
  then show ?thesis by (simp add: add_partial_transcript_def store_transcript_mut[OF U])
next
  case (ClearMeeting m)
  then show ?thesis by (simp add: clear_meeting_mut[OF U])
next
  case (GetRecent m now)
  then show ?thesis by (simp add: get_recent_entries_mut[OF U])
next
  case (GetFull m)
  then show ?thesis by (simp add: get_full_entries_mut[OF U])
qed

lemma foldl_step_mut:
  "invar s \<Longrightarrow> unowned s q \<Longrightarrow>
     foldl step (caller_mutates_list s q xs) cs = caller_mutates_list (foldl step s cs) q xs \<and>
     unowned (foldl step s cs) q"
proof (induction cs arbitrary: s)
  case Nil
  then show ?case by simp
next
  case (Cons c cs)
  from Cons.IH[OF invar_step[OF Cons.prems(1)] unowned_step[OF Cons.prems]]
  show ?case by (simp add: step_mut[OF Cons.prems(2)])
qed

lemma unowned_fresh:
  assumes I: "invar s" and L: "lim s < lim s'" and B: "buffers s' = buffers s" "buffer_objs s' = buffer_objs s"
  shows "unowned s' (lim s)"
  unfolding unowned_def using L B invarD1[OF I] by fastforce

section \<open>Normalization: the code against the specification\<close>

lemma isspace_space [simp]: "isspace (CHR '' '')"
  by (simp add: isspace_def whitespace_def)

lemma rtrim_Nil [simp]: "rtrim [] = []"
  by (simp add: rtrim_def)

lemma rtrim_eq_Nil: "rtrim s = [] \<longleftrightarrow> (\<forall>x \<in> set s. isspace x)"
  by (simp add: rtrim_def dropWhile_eq_Nil_conv)

lemma rtrim_append: "rtrim (xs @ ys) = (if rtrim ys = [] then rtrim xs else xs @ rtrim ys)"
  by (auto simp: rtrim_def dropWhile_append dropWhile_eq_Nil_conv)

lemma rtrim_Cons: "rtrim (x # xs) = (if rtrim xs = [] then (if isspace x then [] else [x]) else x # rtrim xs)"
  using rtrim_append[of "[x]" xs] by (simp add: rtrim_def)

lemma rtrim_word: "\<forall>x \<in> set w. \<not> isspace x \<Longrightarrow> rtrim w = w"
proof (induction w)
  case Nil
  then show ?case by simp
next
  case (Cons a w)
  then show ?case by (simp add: rtrim_Cons)
qed

lemma rtrim_word_append: "\<forall>x \<in> set w. \<not> isspace x \<Longrightarrow> rtrim (w @ u) = w @ rtrim u"
  by (simp add: rtrim_append rtrim_word)

lemma str_split_Nil:
  assumes "dropWhile isspace s = []"
  shows "str_split s = []"
  by (subst str_split.simps) (simp only: assms list.case)

lemma str_split_Cons:
  assumes "dropWhile isspace s = c # cs"
  shows "str_split s = (c # takeWhile (\<lambda>x. \<not> isspace x) cs) # str_split (dropWhile (\<lambda>x. \<not> isspace x) cs)"
  by (subst str_split.simps) (simp only: assms list.case)

lemma str_split_ltrim: "str_split (dropWhile isspace s) = str_split s"
  by (subst str_split.simps, subst (2) str_split.simps) (simp only: dropWhile_idem)

lemma collapse_word:
  "\<forall>x \<in> set w. \<not> isspace x \<Longrightarrow> collapse_whitespace (w @ u) = w @ collapse_whitespace u"
  by (induction w) simp_all

lemma hd_dropWhile_isspace: "dropWhile isspace s = c # cs \<Longrightarrow> \<not> isspace c"
  using hd_dropWhile[of isspace s] by auto

lemma ltrim_collapse: "dropWhile isspace (collapse_whitespace t) = collapse_whitespace (dropWhile isspace t)"
proof (cases t)
  case Nil
  then show ?thesis by simp
next
  case (Cons c cs)
  show ?thesis
  proof (cases "isspace c")
    case False
    with Cons show ?thesis by simp
  next
    case True
    have "dropWhile isspace (collapse_whitespace (dropWhile isspace cs)) = collapse_whitespace (dropWhile isspace cs)"
    proof (cases "dropWhile isspace cs")
      case Nil
      show ?thesis by (simp only: Nil collapse_whitespace.simps dropWhile.simps)
    next
      case (Cons d ds)
      from hd_dropWhile_isspace[OF Cons] show ?thesis
        by (simp only: Cons collapse_whitespace.simps dropWhile.simps if_False)
    qed
    with True Cons show ?thesis by simp
  qed
qed

lemma str_join_Cons:
  "str_join sep (w # ws) = (if ws = [] then w else w @ sep @ str_join sep ws)"
  by (cases ws) simp_all

lemma str_split_words: "w \<in> set (str_split s) \<Longrightarrow> w \<noteq> []"
proof (induction s arbitrary: w rule: str_split.induct)
  case (1 s)
  show ?case
  proof (cases "dropWhile isspace s")
    case Nil
    with "1.prems" show ?thesis by (simp add: str_split_Nil)
  next
    case (Cons c cs)
    with "1.prems" "1.IH"[OF Cons] show ?thesis by (auto simp: str_split_Cons[OF Cons])
  qed
qed

lemma str_join_eq_Nil: "str_join '' '' ws = [] \<longleftrightarrow> ws = [] \<or> ws = [Nil]"
  by (cases ws) (auto simp: str_join_Cons)

lemma str_join_split_eq_Nil: "str_join '' '' (str_split s) = [] \<longleftrightarrow> str_split s = []"
  using str_split_words[of "[]" s] by (auto simp: str_join_eq_Nil)

lemma rtrim_collapse_split:
  "rtrim (collapse_whitespace (dropWhile isspace t)) = str_join '' '' (str_split t)"
proof (induction t rule: str_split.induct)
  case (1 s)
  show ?case
  proof (cases "dropWhile isspace s")
    case Nil
    show ?thesis by (simp only: Nil str_split_Nil[OF Nil] collapse_whitespace.simps rtrim_Nil str_join.simps)
  next
    case (Cons c cs)
    let ?w = "c # takeWhile (\<lambda>x. \<not> isspace x) cs"
    let ?rest = "dropWhile (\<lambda>x. \<not> isspace x) cs"
    have nc: "\<not> isspace c" using Cons by (rule hd_dropWhile_isspace)
    have W: "\<forall>x \<in> set ?w. \<not> isspace x" using nc by (auto dest: set_takeWhileD)
    have split: "c # cs = ?w @ ?rest" by simp
    have IH: "rtrim (collapse_whitespace (dropWhile isspace ?rest)) = str_join '' '' (str_split ?rest)"
      using "1.IH"[OF Cons] .
    have C: "collapse_whitespace (c # cs) = ?w @ collapse_whitespace ?rest"
      using collapse_word[OF W, of ?rest] by simp
    have R: "rtrim (collapse_whitespace ?rest) =
               (if str_split ?rest = [] then [] else CHR '' '' # str_join '' '' (str_split ?rest))"
    proof (cases ?rest)
      case Nil
      have "str_split [] = []" by (rule str_split_Nil) simp
      then show ?thesis by (simp only: Nil collapse_whitespace.simps rtrim_Nil simp_thms if_True)
    next
      case (Cons d ds)
      have "isspace d" using hd_dropWhile[of "\<lambda>x. \<not> isspace x" cs] Cons by auto
      then have "collapse_whitespace ?rest = CHR '' '' # collapse_whitespace (dropWhile isspace ?rest)"
        using Cons by simp
      then show ?thesis using IH
        by (simp add: rtrim_Cons str_join_split_eq_Nil)
    qed
    have "rtrim (collapse_whitespace (c # cs)) = rtrim (?w @ collapse_whitespace ?rest)"
      by (simp only: C)
    also have "\<dots> = ?w @ rtrim (collapse_whitespace ?rest)"
      using W by (rule rtrim_word_append)
    finally show ?thesis using R
      by (simp add: Cons str_split_Cons[OF Cons] str_join_Cons)
  qed
qed

lemma trim_collapse: "trim (collapse_whitespace t) = str_join '' '' (str_split t)"
  by (simp add: trim_def ltrim_def ltrim_collapse rtrim_collapse_split)

lemma rtrim_Cons_word: "\<not> isspace x \<Longrightarrow> rtrim (x # xs) = x # rtrim xs"
  using rtrim_word_append[of "[x]" xs] by simp

lemma ltrim_rtrim: "dropWhile isspace (rtrim u) = rtrim (dropWhile isspace u)"
proof (induction u)
  case Nil
  then show ?case by simp
next
  case (Cons x xs)
  show ?case
  proof (cases "isspace x")
    case True
    show ?thesis
    proof (cases "\<forall>y \<in> set xs. isspace y")
      case all: True
      have "rtrim (dropWhile isspace xs) = []"
        using all by (auto simp: rtrim_eq_Nil dest: set_dropWhileD)
      moreover from all have "rtrim xs = []" by (simp add: rtrim_eq_Nil)
      ultimately show ?thesis using True by (simp add: rtrim_Cons)
    next
      case some: False
      then have "rtrim xs \<noteq> []" by (simp add: rtrim_eq_Nil)
      with True Cons show ?thesis by (simp add: rtrim_Cons)
    qed
  next
    case False
    then show ?thesis by (simp add: rtrim_Cons_word)
  qed
qed

lemma str_split_rtrim: "str_split (rtrim u) = str_split u"
proof (induction u rule: str_split.induct)
  case (1 s)
  show ?case
  proof (cases "dropWhile isspace s")
    case Nil
    have "dropWhile isspace (rtrim s) = []" by (simp only: ltrim_rtrim Nil rtrim_Nil)
    then show ?thesis by (simp only: str_split_Nil[OF Nil] str_split_Nil)
  next
    case (Cons c cs)
    let ?tw = "takeWhile (\<lambda>x. \<not> isspace x) cs"
    let ?rest = "dropWhile (\<lambda>x. \<not> isspace x) cs"
    have nc: "\<not> isspace c" using Cons by (rule hd_dropWhile_isspace)
    have W: "\<forall>x \<in> set (c # ?tw). \<not> isspace x" using nc by (auto dest: set_takeWhileD)
    have "rtrim (c # cs) = rtrim ((c # ?tw) @ ?rest)" by simp
    also have "\<dots> = (c # ?tw) @ rtrim ?rest" using W by (rule rtrim_word_append)
    finally have F: "dropWhile isspace (rtrim s) = c # (?tw @ rtrim ?rest)"
      by (simp only: ltrim_rtrim Cons append_Cons)
    have T: "takeWhile (\<lambda>x. \<not> isspace x) (rtrim ?rest) = []"
    proof (cases ?rest)
      case Nil
      then show ?thesis by (simp only: rtrim_Nil takeWhile.simps)
    next
      case (Cons d ds)
      have "isspace d" using hd_dropWhile[of "\<lambda>x. \<not> isspace x" cs] Cons by auto
      then show ?thesis by (simp add: Cons rtrim_Cons)
    qed
    have tw: "takeWhile (\<lambda>x. \<not> isspace x) (?tw @ rtrim ?rest) = ?tw"
    proof -
      have "takeWhile (\<lambda>x. \<not> isspace x) (?tw @ rtrim ?rest) = ?tw @ takeWhile (\<lambda>x. \<not> isspace x) (rtrim ?rest)"
        by (rule takeWhile_append2) (auto dest: set_takeWhileD)
      with T show ?thesis by simp
    qed
    have dw: "dropWhile (\<lambda>x. \<not> isspace x) (?tw @ rtrim ?rest) = rtrim ?rest"
    proof -
      have "dropWhile (\<lambda>x. \<not> isspace x) (?tw @ rtrim ?rest) = dropWhile (\<lambda>x. \<not> isspace x) (rtrim ?rest)"
        by (rule dropWhile_append2) (auto dest: set_takeWhileD)
      also have "\<dots> = rtrim ?rest"
        using T takeWhile_dropWhile_id[of "\<lambda>x. \<not> isspace x" "rtrim ?rest"] by simp
      finally show ?thesis .
    qed
    have "str_split (rtrim s) = (c # ?tw) # str_split (rtrim ?rest)"
      by (simp only: str_split_Cons[OF F] tw dw)
    also have "\<dots> = (c # ?tw) # str_split ?rest"
      using "1.IH"[OF Cons] by simp
    also have "\<dots> = str_split s" by (simp only: str_split_Cons[OF Cons])
    finally show ?thesis .
  qed
qed

lemma str_split_strip: "str_split (str_strip t) = str_split t"
proof -
  have "str_strip t = rtrim (dropWhile isspace t)" by (simp add: str_strip_def rtrim_def)
  then show ?thesis by (simp only: str_split_rtrim str_split_ltrim)
qed

lemma normalize_text_refines: "normalize_text t = normalize_spec t"
  by (simp add: normalize_text_def normalize_spec_def str_split_strip trim_collapse Let_def)

section \<open>Evaluation of concrete calls\<close>

lemmas exec_defs =
  run_def add_final_transcript_def add_partial_transcript_def store_transcript_def
  TranscriptBuffer_init_def alloc_seq_def alloc_entry_def prune_def seq_append_def seq_clear_def
  clear_meeting_def get_recent_entries_def get_full_entries_def init_meeting_def
  TranscriptBufferService_init_def recent_view_def history_view_def contents_def
  caller_mutates_list_def caller_sets_text_def BUFFER_WINDOW_MS_def
  normalize_text_def str_strip_def str_split.simps isspace_def whitespace_def Let_def

section \<open>The claims\<close>

subsection \<open>C1: what a caller can do to what it was handed\<close>

text \<open>
  C1, as stated, fails.  The list a retrieval returns is new, but the entries in it are the
  entry objects of the buffer, and \<open>TranscriptEntry\<close> is an ordinary (not frozen) dataclass.
  One final fragment is stored for meeting \<open>m\<close>; \<open>get_full_entries\<close> returns the list at
  address 4, which holds the entry at address 3.  Without interference the next
  \<open>get_full_entries\<close> returns the text \<open>hi.\<close>; after the caller has assigned to the \<open>text\<close>
  field of the entry it was handed, \<open>get_full_entries\<close> and \<open>get_recent_entries\<close> return the
  assigned text.
\<close>

theorem shared_entries_counterexample:
  "fst (get_full_entries (run [AddFinal ''m'' ''hi'' 0]) ''m'') = 4 \<and>
   seq_objs (snd (get_full_entries (run [AddFinal ''m'' ''hi'' 0]) ''m'')) 4 = [3] \<and>
   contents (snd (get_full_entries (snd (get_full_entries (run [AddFinal ''m'' ''hi'' 0]) ''m'')) ''m''))
     (fst (get_full_entries (snd (get_full_entries (run [AddFinal ''m'' ''hi'' 0]) ''m'')) ''m''))
     = [\<lparr>text = ''hi.'', timestamp = 0\<rparr>] \<and>
   contents
     (snd (get_full_entries
        (caller_sets_text (snd (get_full_entries (run [AddFinal ''m'' ''hi'' 0]) ''m'')) 3 ''changed'') ''m''))
     (fst (get_full_entries
        (caller_sets_text (snd (get_full_entries (run [AddFinal ''m'' ''hi'' 0]) ''m'')) 3 ''changed'') ''m''))
     = [\<lparr>text = ''changed'', timestamp = 0\<rparr>] \<and>
   contents
     (snd (get_recent_entries
        (caller_sets_text (snd (get_full_entries (run [AddFinal ''m'' ''hi'' 0]) ''m'')) 3 ''changed'') ''m'' 10))
     (fst (get_recent_entries
        (caller_sets_text (snd (get_full_entries (run [AddFinal ''m'' ''hi'' 0]) ''m'')) 3 ''changed'') ''m'' 10))
     = [\<lparr>text = ''changed'', timestamp = 0\<rparr>]"
  by (simp add: exec_defs)

text \<open>
  C1, as amended: the sequence returned by \<open>get_recent_entries\<close> or \<open>get_full_entries\<close> is a
  new list object that holds the addresses of the buffer's own entries (a shallow copy).
  It is neither the deque nor the list of any buffer, so after any change \<open>xs\<close> the caller
  makes to the sequence itself (adding, removing, replacing or reordering elements), and
  after any further calls \<open>cs2\<close> of the service, the registry, the buffers, the entries and
  both views of every meeting \<open>u\<close> are what they are without the change, and so is what the
  next retrieval returns.  Nothing is claimed for assignments to the entries.
\<close>

theorem returned_list_is_fresh:
  fixes cs m now xs cs2 u now2
  defines "s \<equiv> run cs"
  defines "gr \<equiv> get_recent_entries s m now"
  defines "gf \<equiv> get_full_entries s m"
  defines "zr \<equiv> foldl step (snd gr) cs2"
  defines "zr' \<equiv> foldl step (caller_mutates_list (snd gr) (fst gr) xs) cs2"
  defines "zf \<equiv> foldl step (snd gf) cs2"
  defines "zf' \<equiv> foldl step (caller_mutates_list (snd gf) (fst gf) xs) cs2"
  shows "seq_objs (snd gr) (fst gr) = recent_view (snd gr) m \<and>
         seq_objs (snd gf) (fst gf) = history_view (snd gf) m \<and>
         (\<forall>w b. buffers (snd gr) w = Some b \<longrightarrow>
            fst gr \<noteq> entries (buffer_objs (snd gr) b) \<and> fst gr \<noteq> full_entries (buffer_objs (snd gr) b)) \<and>
         (\<forall>w b. buffers (snd gf) w = Some b \<longrightarrow>
            fst gf \<noteq> entries (buffer_objs (snd gf) b) \<and> fst gf \<noteq> full_entries (buffer_objs (snd gf) b)) \<and>
         buffers zr' = buffers zr \<and> buffer_objs zr' = buffer_objs zr \<and> entry_objs zr' = entry_objs zr \<and>
         recent_view zr' u = recent_view zr u \<and> history_view zr' u = history_view zr u \<and>
         contents (snd (get_recent_entries zr' u now2)) (fst (get_recent_entries zr' u now2)) =
           contents (snd (get_recent_entries zr u now2)) (fst (get_recent_entries zr u now2)) \<and>
         contents (snd (get_full_entries zr' u)) (fst (get_full_entries zr' u)) =
           contents (snd (get_full_entries zr u)) (fst (get_full_entries zr u)) \<and>
         buffers zf' = buffers zf \<and> buffer_objs zf' = buffer_objs zf \<and> entry_objs zf' = entry_objs zf \<and>
         recent_view zf' u = recent_view zf u \<and> history_view zf' u = history_view zf u \<and>
         contents (snd (get_recent_entries zf' u now2)) (fst (get_recent_entries zf' u now2)) =
           contents (snd (get_recent_entries zf u now2)) (fst (get_recent_entries zf u now2)) \<and>
         contents (snd (get_full_entries zf' u)) (fst (get_full_entries zf' u)) =
           contents (snd (get_full_entries zf u)) (fst (get_full_entries zf u))"
proof -
  have I: "invar s" unfolding s_def by (rule invar_run)
  have Ir: "invar (snd gr)" using invar_step[OF I, of "GetRecent m now"] by (simp add: gr_def)
  have If: "invar (snd gf)" using invar_step[OF I, of "GetFull m"] by (simp add: gf_def)
  have Ur: "unowned (snd gr) (fst gr)"
    unfolding gr_def get_recent_entries_result(1)
    by (rule unowned_fresh[OF I]) (simp_all add: get_recent_entries_result)
  have Uf: "unowned (snd gf) (fst gf)"
    unfolding gf_def get_full_entries_result(1)
    by (rule unowned_fresh[OF I]) (simp_all add: get_full_entries_result)
  have 1: "seq_objs (snd gr) (fst gr) = recent_view (snd gr) m"
    by (simp add: gr_def get_recent_entries_list views_get_recent_entries[OF I] del: popleft_while.simps)
  have 2: "seq_objs (snd gf) (fst gf) = history_view (snd gf) m"
    by (simp only: gf_def get_full_entries_list views_get_full_entries[OF I])
  from Ur have 3: "\<forall>w b. buffers (snd gr) w = Some b \<longrightarrow>
            fst gr \<noteq> entries (buffer_objs (snd gr) b) \<and> fst gr \<noteq> full_entries (buffer_objs (snd gr) b)"
    by (simp add: unowned_def)
  from Uf have 4: "\<forall>w b. buffers (snd gf) w = Some b \<longrightarrow>
            fst gf \<noteq> entries (buffer_objs (snd gf) b) \<and> fst gf \<noteq> full_entries (buffer_objs (snd gf) b)"
    by (simp add: unowned_def)
  note Mr = foldl_step_mut[OF Ir Ur, of xs cs2, folded zr_def zr'_def]
  note Mf = foldl_step_mut[OF If Uf, of xs cs2, folded zf_def zf'_def]
  from Mr have Er: "zr' = caller_mutates_list zr (fst gr) xs" and Uzr: "unowned zr (fst gr)" by simp_all
  from Mf have Ef: "zf' = caller_mutates_list zf (fst gf) xs" and Uzf: "unowned zf (fst gf)" by simp_all
  have 5: "buffers zr' = buffers zr \<and> buffer_objs zr' = buffer_objs zr \<and> entry_objs zr' = entry_objs zr \<and>
         recent_view zr' u = recent_view zr u \<and> history_view zr' u = history_view zr u"
    by (simp add: Er views_mut[OF Uzr])
  have 6: "buffers zf' = buffers zf \<and> buffer_objs zf' = buffer_objs zf \<and> entry_objs zf' = entry_objs zf \<and>
         recent_view zf' u = recent_view zf u \<and> history_view zf' u = history_view zf u"
    by (simp add: Ef views_mut[OF Uzf])
  have 7: "contents (snd (get_recent_entries zr' u now2)) (fst (get_recent_entries zr' u now2)) =
           contents (snd (get_recent_entries zr u now2)) (fst (get_recent_entries zr u now2)) \<and>
         contents (snd (get_full_entries zr' u)) (fst (get_full_entries zr' u)) =
           contents (snd (get_full_entries zr u)) (fst (get_full_entries zr u))"
    using 5 by (simp only: contents_get_recent_entries contents_get_full_entries simp_thms)
  have 8: "contents (snd (get_recent_entries zf' u now2)) (fst (get_recent_entries zf' u now2)) =
           contents (snd (get_recent_entries zf u now2)) (fst (get_recent_entries zf u now2)) \<and>
         contents (snd (get_full_entries zf' u)) (fst (get_full_entries zf' u)) =
           contents (snd (get_full_entries zf u)) (fst (get_full_entries zf u))"
    using 6 by (simp only: contents_get_recent_entries contents_get_full_entries simp_thms)
  from 1 2 3 4 5 6 7 8 show ?thesis by blast
qed

text \<open>
  A list returned by \<open>get_full_entries\<close> is emptied by the caller; the history of the
  meeting still holds the entry.
\<close>

theorem returned_list_is_fresh_witness:
  "buffers (snd (get_full_entries (run [AddFinal ''m'' ''hi'' 0]) ''m'')) ''m'' = Some 0 \<and>
   fst (get_full_entries (run [AddFinal ''m'' ''hi'' 0]) ''m'') = 4 \<and>
   entries (buffer_objs (snd (get_full_entries (run [AddFinal ''m'' ''hi'' 0]) ''m'')) 0) = 1 \<and>
   full_entries (buffer_objs (snd (get_full_entries (run [AddFinal ''m'' ''hi'' 0]) ''m'')) 0) = 2 \<and>
   seq_objs (snd (get_full_entries (run [AddFinal ''m'' ''hi'' 0]) ''m'')) 4 = [3] \<and>
   history_view (foldl step
      (caller_mutates_list (snd (get_full_entries (run [AddFinal ''m'' ''hi'' 0]) ''m'')) 4 []) []) ''m'' = [3]"
proof -
  note t = returned_list_is_fresh[of "[AddFinal ''m'' ''hi'' 0]" "''m''" 0 "[]" "[]" "''m''" 0]
  have a: "buffers (snd (get_full_entries (run [AddFinal ''m'' ''hi'' 0]) ''m'')) ''m'' = Some 0"
    by (simp add: exec_defs)
  have b: "fst (get_full_entries (run [AddFinal ''m'' ''hi'' 0]) ''m'') = 4"
    by (simp add: exec_defs)
  have c: "entries (buffer_objs (snd (get_full_entries (run [AddFinal ''m'' ''hi'' 0]) ''m'')) 0) = 1 \<and>
   full_entries (buffer_objs (snd (get_full_entries (run [AddFinal ''m'' ''hi'' 0]) ''m'')) 0) = 2"
    by (simp add: exec_defs)
  have d: "history_view (foldl step (snd (get_full_entries (run [AddFinal ''m'' ''hi'' 0]) ''m'')) []) ''m'' = [3]"
    by (simp add: exec_defs)
  from t b d have e: "history_view (foldl step
      (caller_mutates_list (snd (get_full_entries (run [AddFinal ''m'' ''hi'' 0]) ''m'')) 4 []) []) ''m'' = [3]"
    by simp
  from t b d have f: "seq_objs (snd (get_full_entries (run [AddFinal ''m'' ''hi'' 0]) ''m'')) 4 = [3]"
    by simp
  from a b c e f show ?thesis by blast
qed

subsection \<open>C2: duplicates among final fragments\<close>

text \<open>
  C2, as stated, fails: the duplicate check reads the last entry of the recent view, and
  a retrieval prunes the recent view by the wall clock.  A final fragment is stored; forty
  seconds later \<open>get_recent_entries\<close> empties the recent view; the same final text then
  arrives again and is stored, although it equals the text of the entry committed
  immediately before it.  The history then holds the same text twice in a row.
\<close>

theorem final_dedup_counterexample:
  "history_view (run [AddFinal ''m'' ''same text.'' 1700000000000, GetRecent ''m'' 1700000040000]) ''m'' \<noteq> [] \<and>
   text (entry_objs (run [AddFinal ''m'' ''same text.'' 1700000000000, GetRecent ''m'' 1700000040000])
     (last (history_view (run [AddFinal ''m'' ''same text.'' 1700000000000, GetRecent ''m'' 1700000040000]) ''m'')))
     = normalize_text ''same text.'' \<and>
   fst (add_final_transcript (run [AddFinal ''m'' ''same text.'' 1700000000000, GetRecent ''m'' 1700000040000])
     ''m'' ''same text.'' 1700000040100) \<noteq> None \<and>
   map (entry_objs (run [AddFinal ''m'' ''same text.'' 1700000000000, GetRecent ''m'' 1700000040000,
                         AddFinal ''m'' ''same text.'' 1700000040100]))
     (history_view (run [AddFinal ''m'' ''same text.'' 1700000000000, GetRecent ''m'' 1700000040000,
                         AddFinal ''m'' ''same text.'' 1700000040100]) ''m'')
     = [\<lparr>text = ''same text.'', timestamp = 1700000000000\<rparr>,
        \<lparr>text = ''same text.'', timestamp = 1700000040100\<rparr>]"
  by (simp add: exec_defs)

text \<open>
  C2, as amended: in every reachable state, a non-empty recent view of a meeting ends with
  the entry committed last for that meeting.  A final fragment whose normalized text is
  the text of that entry is rejected, with the state unchanged, as long as the recent view
  is not empty; a final fragment with a non-empty normalized text is accepted and appended
  to the history whenever the recent view is empty (after a clear, or after a retrieval has
  pruned it) or ends with a different text, whatever the earlier entries are.
\<close>

theorem final_dedup_recent_view:
  fixes cs m tx ts
  defines "s \<equiv> run cs"
  shows "(recent_view s m \<noteq> [] \<longrightarrow>
            history_view s m \<noteq> [] \<and> last (recent_view s m) = last (history_view s m)) \<and>
         (recent_view s m \<noteq> [] \<and> text (entry_objs s (last (history_view s m))) = normalize_text tx \<longrightarrow>
            add_final_transcript s m tx ts = (None, s)) \<and>
         (normalize_text tx \<noteq> [] \<and>
          (recent_view s m = [] \<or> text (entry_objs s (last (recent_view s m))) \<noteq> normalize_text tx) \<longrightarrow>
            (\<exists>e. fst (add_final_transcript s m tx ts) = Some e \<and>
                 history_view (snd (add_final_transcript s m tx ts)) m = history_view s m @ [e]))"
proof -
  have I: "invar s" unfolding s_def by (rule invar_run)
  note S = recent_suffix_history[OF I, of m]
  have L: "history_view s m \<noteq> [] \<and> last (recent_view s m) = last (history_view s m)"
    if "recent_view s m \<noteq> []"
    using S that by (rule last_suffix)
  have R: "add_final_transcript s m tx ts = (None, s)"
    if A: "recent_view s m \<noteq> [] \<and> text (entry_objs s (last (history_view s m))) = normalize_text tx"
  proof -
    from A obtain b where "buffers s m = Some b"
      by (auto simp: recent_view_def split: option.splits)
    moreover from A L have "text (entry_objs s (last (recent_view s m))) = normalize_text tx" by simp
    ultimately show ?thesis using A
      by (simp add: add_final_transcript_def store_transcript_old)
  qed
  have T: "\<exists>e. fst (add_final_transcript s m tx ts) = Some e \<and>
                 history_view (snd (add_final_transcript s m tx ts)) m = history_view s m @ [e]"
    if A: "normalize_text tx \<noteq> [] \<and>
          (recent_view s m = [] \<or> text (entry_objs s (last (recent_view s m))) \<noteq> normalize_text tx)"
  proof -
    from A have "fst (store_transcript s m tx ts False) \<noteq> None"
      by (auto simp: store_transcript_None_iff)
    then obtain e where E: "fst (store_transcript s m tx ts False) = Some e" by blast
    from store_transcript_accepted[OF I E, of m] E show ?thesis
      by (simp add: add_final_transcript_def)
  qed
  from L R T show ?thesis by blast
qed

text \<open>
  The same final text twice in a row is rejected; after a different text it is accepted;
  after a retrieval that pruned the recent view it is accepted as well.
\<close>

theorem final_dedup_recent_view_witness:
  "fst (add_final_transcript (run [AddFinal ''m'' ''same text.'' 0]) ''m'' ''same text.'' 100) = None \<and>
   fst (add_final_transcript (run [AddFinal ''m'' ''same text.'' 0, AddFinal ''m'' ''different.'' 200])
          ''m'' ''same text.'' 300) \<noteq> None \<and>
   fst (add_final_transcript (run [AddFinal ''m'' ''same text.'' 0, GetRecent ''m'' 40000])
          ''m'' ''same text.'' 100) \<noteq> None"
proof -
  have a: "recent_view (run [AddFinal ''m'' ''same text.'' 0]) ''m'' \<noteq> [] \<and>
     text (entry_objs (run [AddFinal ''m'' ''same text.'' 0])
       (last (history_view (run [AddFinal ''m'' ''same text.'' 0]) ''m''))) = normalize_text ''same text.''"
    by (simp add: exec_defs)
  have b: "normalize_text ''same text.'' \<noteq> [] \<and>
     (recent_view (run [AddFinal ''m'' ''same text.'' 0, AddFinal ''m'' ''different.'' 200]) ''m'' = [] \<or>
      text (entry_objs (run [AddFinal ''m'' ''same text.'' 0, AddFinal ''m'' ''different.'' 200])
       (last (recent_view (run [AddFinal ''m'' ''same text.'' 0, AddFinal ''m'' ''different.'' 200]) ''m'')))
       \<noteq> normalize_text ''same text.'')"
    by (simp add: exec_defs)
  have c: "normalize_text ''same text.'' \<noteq> [] \<and>
     (recent_view (run [AddFinal ''m'' ''same text.'' 0, GetRecent ''m'' 40000]) ''m'' = [] \<or>
      text (entry_objs (run [AddFinal ''m'' ''same text.'' 0, GetRecent ''m'' 40000])
       (last (recent_view (run [AddFinal ''m'' ''same text.'' 0, GetRecent ''m'' 40000]) ''m'')))
       \<noteq> normalize_text ''same text.'')"
    by (simp add: exec_defs)
  note t1 = final_dedup_recent_view[of "[AddFinal ''m'' ''same text.'' 0]" "''m''" "''same text.''" 100]
  note t2 = final_dedup_recent_view[of "[AddFinal ''m'' ''same text.'' 0, AddFinal ''m'' ''different.'' 200]" "''m''" "''same text.''" 300]
  note t3 = final_dedup_recent_view[of "[AddFinal ''m'' ''same text.'' 0, GetRecent ''m'' 40000]" "''m''" "''same text.''" 100]
  from t1 a have "add_final_transcript (run [AddFinal ''m'' ''same text.'' 0]) ''m'' ''same text.'' 100
     = (None, run [AddFinal ''m'' ''same text.'' 0])" by blast
  then have c1: "fst (add_final_transcript (run [AddFinal ''m'' ''same text.'' 0]) ''m'' ''same text.'' 100) = None"
    by simp
  from t2 b have c2: "fst (add_final_transcript (run [AddFinal ''m'' ''same text.'' 0, AddFinal ''m'' ''different.'' 200])
          ''m'' ''same text.'' 300) \<noteq> None" by force
  from t3 c have c3: "fst (add_final_transcript (run [AddFinal ''m'' ''same text.'' 0, GetRecent ''m'' 40000])
          ''m'' ''same text.'' 100) \<noteq> None" by force
  from c1 c2 c3 show ?thesis by blast
qed

subsection \<open>C3: pruning\<close>

text \<open>
  C3: pruning the buffer \<open>b\<close> of meeting \<open>m\<close> with reference timestamp \<open>t\<close> removes from the
  front of the recent view exactly the longest run of entries whose timestamp is strictly
  less than \<open>t - 30000\<close>, and leaves the rest of the recent view, the recent views of the
  other meetings, every history view and every entry as they are.  An ingestion that stores
  an entry prunes with the timestamp of the incoming entry and then appends the entry to
  both views.  In particular, three entries ingested at 0, 10000 and 35000 into a meeting
  without history leave the second and the third in the recent view and all three in the
  history.
\<close>

theorem prune_window:
  fixes cs m b t tx ts ad x1 x2 x3 a1 a2 a3
  defines "s \<equiv> run cs"
  defines "r \<equiv> store_transcript s m tx ts ad"
  defines "r1 \<equiv> store_transcript s m x1 0 a1"
  defines "r2 \<equiv> store_transcript (snd r1) m x2 10000 a2"
  defines "r3 \<equiv> store_transcript (snd r2) m x3 35000 a3"
  shows "(buffers s m = Some b \<longrightarrow>
           (\<exists>removed. recent_view s m = removed @ recent_view (prune s b t) m \<and>
              (\<forall>e \<in> set removed. timestamp (entry_objs s e) < t - 30000) \<and>
              (recent_view (prune s b t) m \<noteq> [] \<longrightarrow>
                 \<not> timestamp (entry_objs s (hd (recent_view (prune s b t) m))) < t - 30000)) \<and>
           (\<forall>m'. m' \<noteq> m \<longrightarrow> recent_view (prune s b t) m' = recent_view s m') \<and>
           (\<forall>m'. history_view (prune s b t) m' = history_view s m') \<and>
           entry_objs (prune s b t) = entry_objs s) \<and>
         (\<forall>e. fst r = Some e \<longrightarrow>
            recent_view (snd r) m =
              dropWhile (\<lambda>x. timestamp (entry_objs s x) < ts - 30000) (recent_view s m) @ [e] \<and>
            history_view (snd r) m = history_view s m @ [e] \<and>
            timestamp (entry_objs (snd r) e) = ts) \<and>
         (\<forall>e1 e2 e3. history_view s m = [] \<and> fst r1 = Some e1 \<and> fst r2 = Some e2 \<and> fst r3 = Some e3 \<longrightarrow>
            recent_view (snd r3) m = [e2, e3] \<and> history_view (snd r3) m = [e1, e2, e3] \<and>
            map (\<lambda>e. timestamp (entry_objs (snd r3) e)) [e1, e2, e3] = [0, 10000, 35000])"
proof -
  have I: "invar s" unfolding s_def by (rule invar_run)
  have A: "(\<exists>removed. recent_view s m = removed @ recent_view (prune s b t) m \<and>
              (\<forall>e \<in> set removed. timestamp (entry_objs s e) < t - 30000) \<and>
              (recent_view (prune s b t) m \<noteq> [] \<longrightarrow>
                 \<not> timestamp (entry_objs s (hd (recent_view (prune s b t) m))) < t - 30000)) \<and>
           (\<forall>m'. m' \<noteq> m \<longrightarrow> recent_view (prune s b t) m' = recent_view s m') \<and>
           (\<forall>m'. history_view (prune s b t) m' = history_view s m') \<and>
           entry_objs (prune s b t) = entry_objs s" if B: "buffers s m = Some b"
    using popleft_while_split[of "recent_view s m" "entry_objs s" "t - 30000"]
    by (simp add: views_prune[OF I B] BUFFER_WINDOW_MS_def) (simp add: prune_def Let_def)
  have B: "recent_view (snd r) m =
              dropWhile (\<lambda>x. timestamp (entry_objs s x) < ts - 30000) (recent_view s m) @ [e] \<and>
            history_view (snd r) m = history_view s m @ [e] \<and>
            timestamp (entry_objs (snd r) e) = ts" if R: "fst r = Some e" for e
    using store_transcript_accepted_recent[OF I R[unfolded r_def]]
      store_transcript_accepted[OF I R[unfolded r_def], of m]
    by (simp add: r_def popleft_while_dropWhile BUFFER_WINDOW_MS_def)
  have C: "recent_view (snd r3) m = [e2, e3] \<and> history_view (snd r3) m = [e1, e2, e3] \<and>
            map (\<lambda>e. timestamp (entry_objs (snd r3) e)) [e1, e2, e3] = [0, 10000, 35000]"
    if H: "history_view s m = [] \<and> fst r1 = Some e1 \<and> fst r2 = Some e2 \<and> fst r3 = Some e3" for e1 e2 e3
  proof -
    from H have E1: "fst (store_transcript s m x1 0 a1) = Some e1" by (simp add: r1_def)
    have I1: "invar (snd r1)" unfolding r1_def using I by (rule invar_store_transcript)
    from H have E2: "fst (store_transcript (snd r1) m x2 10000 a2) = Some e2" by (simp add: r2_def)
    have I2: "invar (snd r2)" unfolding r2_def using I1 by (rule invar_store_transcript)
    from H have E3: "fst (store_transcript (snd r2) m x3 35000 a3) = Some e3" by (simp add: r3_def)
    from H recent_suffix_history[OF I, of m] have R0: "recent_view s m = []" by simp
    note A1 = store_transcript_accepted[OF I E1, of m, folded r1_def]
    note A2 = store_transcript_accepted[OF I1 E2, of m, folded r2_def]
    note A3 = store_transcript_accepted[OF I2 E3, of m, folded r3_def]
    from A1 A2 A3 have D: "e1 \<noteq> e2" "e2 \<noteq> e3" "e1 \<noteq> e3" by simp_all
    from A1 R0 H have V1: "recent_view (snd r1) m = [e1]" "history_view (snd r1) m = [e1]" by simp_all
    from A2 V1 A1 D have V2: "recent_view (snd r2) m = [e1, e2]" "history_view (snd r2) m = [e1, e2]"
      by (simp_all add: BUFFER_WINDOW_MS_def)
    from A3 V2 A2 A1 D show ?thesis
      by (simp add: BUFFER_WINDOW_MS_def)
  qed
  from A B C show ?thesis by blast
qed

text \<open>
  Two partial fragments at 0 and 10000, then pruning at 35000, and a third fragment at
  35000; and the three final fragments of the example on a new service.
\<close>

theorem prune_window_witness:
  "buffers (run [AddPartial ''m'' ''a'' 0, AddPartial ''m'' ''b'' 10000]) ''m'' = Some 0 \<and>
   recent_view (run [AddPartial ''m'' ''a'' 0, AddPartial ''m'' ''b'' 10000]) ''m'' = [3, 4] \<and>
   recent_view (prune (run [AddPartial ''m'' ''a'' 0, AddPartial ''m'' ''b'' 10000]) 0 35000) ''m'' = [4] \<and>
   history_view (prune (run [AddPartial ''m'' ''a'' 0, AddPartial ''m'' ''b'' 10000]) 0 35000) ''m'' = [3, 4] \<and>
   fst (store_transcript (run [AddPartial ''m'' ''a'' 0, AddPartial ''m'' ''b'' 10000]) ''m'' ''c'' 35000 True) = Some 5 \<and>
   recent_view (snd (store_transcript (run [AddPartial ''m'' ''a'' 0, AddPartial ''m'' ''b'' 10000]) ''m'' ''c'' 35000 True)) ''m''
     = [4, 5] \<and>
   history_view (snd (store_transcript (run [AddPartial ''m'' ''a'' 0, AddPartial ''m'' ''b'' 10000]) ''m'' ''c'' 35000 True)) ''m''
     = [3, 4, 5] \<and>
   history_view (run []) ''m'' = [] \<and>
   fst (store_transcript (run []) ''m'' ''a'' 0 False) = Some 3 \<and>
   fst (store_transcript (snd (store_transcript (run []) ''m'' ''a'' 0 False)) ''m'' ''b'' 10000 False) = Some 4 \<and>
   fst (store_transcript (snd (store_transcript (snd (store_transcript (run []) ''m'' ''a'' 0 False))
          ''m'' ''b'' 10000 False)) ''m'' ''c'' 35000 False) = Some 5 \<and>
   recent_view (snd (store_transcript (snd (store_transcript (snd (store_transcript (run []) ''m'' ''a'' 0 False))
          ''m'' ''b'' 10000 False)) ''m'' ''c'' 35000 False)) ''m'' = [4, 5] \<and>
   history_view (snd (store_transcript (snd (store_transcript (snd (store_transcript (run []) ''m'' ''a'' 0 False))
          ''m'' ''b'' 10000 False)) ''m'' ''c'' 35000 False)) ''m'' = [3, 4, 5]"
proof -
  note t = prune_window[where cs = "[AddPartial ''m'' ''a'' 0, AddPartial ''m'' ''b'' 10000]"
      and m = "''m''" and b = 0 and t = 35000 and tx = "''c''" and ts = 35000 and ad = True]
  note u = prune_window[where cs = "[]" and m = "''m''" and ?x1.0 = "''a''" and ?x2.0 = "''b''" and ?x3.0 = "''c''"
      and ?a1.0 = False and ?a2.0 = False and ?a3.0 = False]
  have a: "buffers (run [AddPartial ''m'' ''a'' 0, AddPartial ''m'' ''b'' 10000]) ''m'' = Some 0"
    by (simp add: exec_defs)
  have b: "recent_view (run [AddPartial ''m'' ''a'' 0, AddPartial ''m'' ''b'' 10000]) ''m'' = [3, 4]"
    by (simp add: exec_defs)
  have c: "recent_view (prune (run [AddPartial ''m'' ''a'' 0, AddPartial ''m'' ''b'' 10000]) 0 35000) ''m'' = [4]"
    by (simp add: exec_defs)
  have c': "history_view (run [AddPartial ''m'' ''a'' 0, AddPartial ''m'' ''b'' 10000]) ''m'' = [3, 4]"
    by (simp add: exec_defs)
  have d: "fst (store_transcript (run [AddPartial ''m'' ''a'' 0, AddPartial ''m'' ''b'' 10000]) ''m'' ''c'' 35000 True) = Some 5"
    by (simp add: exec_defs)
  have e: "dropWhile (\<lambda>x. timestamp (entry_objs (run [AddPartial ''m'' ''a'' 0, AddPartial ''m'' ''b'' 10000]) x) < 35000 - 30000)
             [3, 4] = [4]"
    by (simp add: exec_defs)
  from t a c' have h1: "history_view (prune (run [AddPartial ''m'' ''a'' 0, AddPartial ''m'' ''b'' 10000]) 0 35000) ''m'' = [3, 4]"
    by simp
  from t d b c' e have h2:
    "recent_view (snd (store_transcript (run [AddPartial ''m'' ''a'' 0, AddPartial ''m'' ''b'' 10000]) ''m'' ''c'' 35000 True)) ''m''
       = [4, 5] \<and>
     history_view (snd (store_transcript (run [AddPartial ''m'' ''a'' 0, AddPartial ''m'' ''b'' 10000]) ''m'' ''c'' 35000 True)) ''m''
       = [3, 4, 5]"
    by simp
  have f: "history_view (run []) ''m'' = []" by (simp add: exec_defs)
  have g1: "fst (store_transcript (run []) ''m'' ''a'' 0 False) = Some 3" by (simp add: exec_defs)
  have g2: "fst (store_transcript (snd (store_transcript (run []) ''m'' ''a'' 0 False)) ''m'' ''b'' 10000 False) = Some 4"
    by (simp add: exec_defs)
  have g3: "fst (store_transcript (snd (store_transcript (snd (store_transcript (run []) ''m'' ''a'' 0 False))
          ''m'' ''b'' 10000 False)) ''m'' ''c'' 35000 False) = Some 5"
    by (simp add: exec_defs)
  from u f g1 g2 g3 have h3:
    "recent_view (snd (store_transcript (snd (store_transcript (snd (store_transcript (run []) ''m'' ''a'' 0 False))
          ''m'' ''b'' 10000 False)) ''m'' ''c'' 35000 False)) ''m'' = [4, 5] \<and>
     history_view (snd (store_transcript (snd (store_transcript (snd (store_transcript (run []) ''m'' ''a'' 0 False))
          ''m'' ''b'' 10000 False)) ''m'' ''c'' 35000 False)) ''m'' = [3, 4, 5]"
    by simp
  from a b c d f g1 g2 g3 h1 h2 h3 show ?thesis by blast
qed

subsection \<open>C4: the duplicate check is for final fragments only\<close>

text \<open>
  C4, as stated, fails for a text that normalizes to the empty string: \<open>add_final_transcript\<close>
  produces no entry although the recent view is empty, and the same partial text twice in
  a row produces no entry at all.
\<close>

theorem adjacency_dedup_counterexample:
  "fst (add_final_transcript TranscriptBufferService_init ''m'' '' '' 0) = None \<and>
   recent_view TranscriptBufferService_init ''m'' = [] \<and>
   fst (add_partial_transcript TranscriptBufferService_init ''m'' '' '' 0) = None \<and>
   fst (add_partial_transcript
          (snd (add_partial_transcript TranscriptBufferService_init ''m'' '' '' 0)) ''m'' '' '' 1) = None \<and>
   history_view
     (snd (add_partial_transcript
        (snd (add_partial_transcript TranscriptBufferService_init ''m'' '' '' 0)) ''m'' '' '' 1)) ''m'' = []"
  by (simp add: exec_defs)

text \<open>
  C4, as amended: for a text whose normalization is not empty, \<open>add_final_transcript\<close>
  produces no entry exactly when the recent view is not empty and the text of its last
  entry is the normalized text; otherwise it stores the entry, with the normalized text
  and the given timestamp, at the end of both views.  \<open>add_partial_transcript\<close> makes no
  duplicate check: the same such text ingested twice in a row produces two distinct
  entries, both appended to the history.
\<close>

theorem adjacency_dedup:
  fixes cs m tx ts ts'
  defines "s \<equiv> run cs"
  defines "f \<equiv> add_final_transcript s m tx ts"
  defines "p1 \<equiv> add_partial_transcript s m tx ts"
  defines "p2 \<equiv> add_partial_transcript (snd p1) m tx ts'"
  assumes N: "normalize_text tx \<noteq> []"
  shows "(fst f = None \<longleftrightarrow>
            recent_view s m \<noteq> [] \<and> text (entry_objs s (last (recent_view s m))) = normalize_text tx) \<and>
         (\<forall>e. fst f = Some e \<longrightarrow>
            entry_objs (snd f) e = \<lparr>text = normalize_text tx, timestamp = ts\<rparr> \<and>
            recent_view (snd f) m \<noteq> [] \<and> last (recent_view (snd f) m) = e \<and>
            history_view (snd f) m = history_view s m @ [e]) \<and>
         (\<exists>e1 e2. fst p1 = Some e1 \<and> fst p2 = Some e2 \<and> e1 \<noteq> e2 \<and>
            entry_objs (snd p2) e1 = \<lparr>text = normalize_text tx, timestamp = ts\<rparr> \<and>
            entry_objs (snd p2) e2 = \<lparr>text = normalize_text tx, timestamp = ts'\<rparr> \<and>
            history_view (snd p2) m = history_view s m @ [e1, e2])"
proof (intro conjI allI impI)
  have I: "invar s" unfolding s_def by (rule invar_run)
  show "fst f = None \<longleftrightarrow>
          recent_view s m \<noteq> [] \<and> text (entry_objs s (last (recent_view s m))) = normalize_text tx"
    using N by (simp add: f_def add_final_transcript_def store_transcript_None_iff)
  {
    fix e assume "fst f = Some e"
    then have "fst (store_transcript s m tx ts False) = Some e"
      by (simp add: f_def add_final_transcript_def)
    from store_transcript_accepted[OF I this, of m]
    show "entry_objs (snd f) e = \<lparr>text = normalize_text tx, timestamp = ts\<rparr>"
      and "recent_view (snd f) m \<noteq> []"
      and "last (recent_view (snd f) m) = e"
      and "history_view (snd f) m = history_view s m @ [e]"
      by (simp_all add: f_def add_final_transcript_def)
  }
  have "fst (store_transcript s m tx ts True) \<noteq> None"
    using N by (simp add: store_transcript_None_iff)
  then obtain e1 where E1: "fst (store_transcript s m tx ts True) = Some e1" by blast
  note A1 = store_transcript_accepted[OF I E1, of m]
  have I1: "invar (snd (store_transcript s m tx ts True))"
    using I by (rule invar_store_transcript)
  have "fst (store_transcript (snd (store_transcript s m tx ts True)) m tx ts' True) \<noteq> None"
    using N by (simp add: store_transcript_None_iff)
  then obtain e2 where E2: "fst (store_transcript (snd (store_transcript s m tx ts True)) m tx ts' True) = Some e2"
    by blast
  note A2 = store_transcript_accepted[OF I1 E2, of m]
  from A1 A2 have D: "e1 \<noteq> e2" by simp
  from E1 E2 D A1 A2
  show "\<exists>e1 e2. fst p1 = Some e1 \<and> fst p2 = Some e2 \<and> e1 \<noteq> e2 \<and>
            entry_objs (snd p2) e1 = \<lparr>text = normalize_text tx, timestamp = ts\<rparr> \<and>
            entry_objs (snd p2) e2 = \<lparr>text = normalize_text tx, timestamp = ts'\<rparr> \<and>
            history_view (snd p2) m = history_view s m @ [e1, e2]"
    by (simp add: p1_def p2_def add_partial_transcript_def)
qed

text \<open>
  The example of the specification: the same final text at 0 and at 100, then a different
  text at 200 and the first text again at 300; and the same partial text twice.
\<close>

theorem adjacency_dedup_witness:
  "normalize_text ''same text.'' \<noteq> [] \<and>
   fst (add_final_transcript (run [AddFinal ''m'' ''same text.'' 0]) ''m'' ''same text.'' 100) = None \<and>
   fst (add_final_transcript (run [AddFinal ''m'' ''same text.'' 0, AddFinal ''m'' ''different.'' 200])
          ''m'' ''same text.'' 300) \<noteq> None \<and>
   length (history_view
     (snd (add_partial_transcript (snd (add_partial_transcript (run []) ''m'' ''same text.'' 0))
        ''m'' ''same text.'' 0)) ''m'') = 2"
proof -
  have h: "normalize_text ''same text.'' \<noteq> []" by (simp add: exec_defs)
  have a: "recent_view (run [AddFinal ''m'' ''same text.'' 0]) ''m'' \<noteq> [] \<and>
     text (entry_objs (run [AddFinal ''m'' ''same text.'' 0])
       (last (recent_view (run [AddFinal ''m'' ''same text.'' 0]) ''m''))) = normalize_text ''same text.''"
    by (simp add: exec_defs)
  have b: "\<not> (recent_view (run [AddFinal ''m'' ''same text.'' 0, AddFinal ''m'' ''different.'' 200]) ''m'' \<noteq> [] \<and>
     text (entry_objs (run [AddFinal ''m'' ''same text.'' 0, AddFinal ''m'' ''different.'' 200])
       (last (recent_view (run [AddFinal ''m'' ''same text.'' 0, AddFinal ''m'' ''different.'' 200]) ''m'')))
       = normalize_text ''same text.'')"
    by (simp add: exec_defs)
  note t1 = adjacency_dedup[OF h, of "[AddFinal ''m'' ''same text.'' 0]" "''m''" 100 0]
  note t2 = adjacency_dedup[OF h, of "[AddFinal ''m'' ''same text.'' 0, AddFinal ''m'' ''different.'' 200]" "''m''" 300 0]
  note t3 = adjacency_dedup[OF h, of "[]" "''m''" 0 0]
  from t1 a have c1: "fst (add_final_transcript (run [AddFinal ''m'' ''same text.'' 0]) ''m'' ''same text.'' 100) = None"
    by blast
  from t2 b have c2: "fst (add_final_transcript (run [AddFinal ''m'' ''same text.'' 0, AddFinal ''m'' ''different.'' 200])
          ''m'' ''same text.'' 300) \<noteq> None"
    by blast
  from t3 obtain e1 e2 where "history_view
     (snd (add_partial_transcript (snd (add_partial_transcript (run []) ''m'' ''same text.'' 0))
        ''m'' ''same text.'' 0)) ''m'' = history_view (run []) ''m'' @ [e1, e2]"
    by blast
  moreover have "history_view (run []) ''m'' = []" by (simp add: exec_defs)
  ultimately have c3: "length (history_view
     (snd (add_partial_transcript (snd (add_partial_transcript (run []) ''m'' ''same text.'' 0))
        ''m'' ''same text.'' 0)) ''m'') = 2"
    by simp
  from h c1 c2 c3 show ?thesis by blast
qed

subsection \<open>C5: normalization\<close>

text \<open>
  C5: \<open>normalize_text\<close> computes what the specification describes: runs of whitespace
  collapsed to single spaces, leading and trailing whitespace trimmed, and a full stop
  appended when the result is not empty and does not end in \<open>.\<close>, \<open>!\<close> or \<open>?\<close>.  The three
  examples of the specification hold, and the text of a stored entry is the normalized
  text.
\<close>

theorem normalize_text_correct:
  "normalize_text txt = normalize_spec txt \<and>
   normalize_text ''hello world'' = ''hello world.'' \<and>
   normalize_text ''Already done!'' = ''Already done!'' \<and>
   normalize_text (''a   b'' @ [CHR 0x09] @ ''c'') = ''a b c.'' \<and>
   (\<forall>e. fst (store_transcript (run cs) m txt ts ad) = Some e \<longrightarrow>
      text (entry_objs (snd (store_transcript (run cs) m txt ts ad)) e) = normalize_text txt)"
proof -
  have 1: "normalize_text ''hello world'' = ''hello world.''" by (simp add: exec_defs)
  have 2: "normalize_text ''Already done!'' = ''Already done!''" by (simp add: exec_defs)
  have 3: "normalize_text (''a   b'' @ [CHR 0x09] @ ''c'') = ''a b c.''" by (simp add: exec_defs)
  have 4: "text (entry_objs (snd (store_transcript (run cs) m txt ts ad)) e) = normalize_text txt"
    if "fst (store_transcript (run cs) m txt ts ad) = Some e" for e
    using store_transcript_accepted[OF invar_run that, of m] by simp
  from normalize_text_refines 1 2 3 4 show ?thesis by blast
qed

text \<open>The first example, stored by a new service, and a text with whitespace at both ends.\<close>

theorem normalize_text_correct_witness:
  "fst (store_transcript (run []) ''m'' ''hello world'' 0 False) = Some 3 \<and>
   text (entry_objs (snd (store_transcript (run []) ''m'' ''hello world'' 0 False)) 3) = ''hello world.'' \<and>
   normalize_spec (''  a   b'' @ [CHR 0x09] @ ''c '') = ''a b c.''"
proof -
  note t = normalize_text_correct[of "''hello world''" "[]" "''m''" 0 False]
  note u = normalize_text_correct[of "''  a   b'' @ [CHR 0x09] @ ''c ''" "[]" "''m''" 0 False]
  have a: "fst (store_transcript (run []) ''m'' ''hello world'' 0 False) = Some 3" by (simp add: exec_defs)
  have b: "normalize_text (''  a   b'' @ [CHR 0x09] @ ''c '') = ''a b c.''" by (simp add: exec_defs)
  from t a have "text (entry_objs (snd (store_transcript (run []) ''m'' ''hello world'' 0 False)) 3)
      = normalize_text ''hello world''"
    by blast
  moreover from t have "normalize_text ''hello world'' = ''hello world.''" by blast
  ultimately have c: "text (entry_objs (snd (store_transcript (run []) ''m'' ''hello world'' 0 False)) 3) = ''hello world.''"
    by (rule trans)
  from u have "normalize_text (''  a   b'' @ [CHR 0x09] @ ''c '') = normalize_spec (''  a   b'' @ [CHR 0x09] @ ''c '')"
    by blast
  with b have d: "normalize_spec (''  a   b'' @ [CHR 0x09] @ ''c '') = ''a b c.''" by (simp only:)
  from a c d show ?thesis by blast
qed

subsection \<open>C6: empty input\<close>

text \<open>
  C6: in every reachable state, ingesting a text that normalizes to the empty string, as
  final or as partial fragment, returns \<open>None\<close> (no entry; the result type has no error),
  and leaves both views of every meeting and every entry unchanged.
\<close>

theorem empty_text_no_entry:
  assumes "normalize_text txt = []"
  shows "fst (add_final_transcript (run cs) m txt ts) = None \<and>
         fst (add_partial_transcript (run cs) m txt ts) = None \<and>
         (\<forall>m'. recent_view (snd (add_final_transcript (run cs) m txt ts)) m' = recent_view (run cs) m' \<and>
               history_view (snd (add_final_transcript (run cs) m txt ts)) m' = history_view (run cs) m' \<and>
               recent_view (snd (add_partial_transcript (run cs) m txt ts)) m' = recent_view (run cs) m' \<and>
               history_view (snd (add_partial_transcript (run cs) m txt ts)) m' = history_view (run cs) m') \<and>
         entry_objs (snd (add_final_transcript (run cs) m txt ts)) = entry_objs (run cs) \<and>
         entry_objs (snd (add_partial_transcript (run cs) m txt ts)) = entry_objs (run cs)"
proof -
  have R: "fst (store_transcript (run cs) m txt ts ad) = None" for ad
    using assms by (simp add: store_transcript_None_iff)
  note rej = store_transcript_rejected[OF invar_run R]
  from R rej show ?thesis
    by (simp add: add_final_transcript_def add_partial_transcript_def)
qed

text \<open>Three spaces, for a meeting with a buffer and for a meeting without.\<close>

theorem empty_text_no_entry_witness:
  "normalize_text ''   '' = [] \<and>
   fst (add_final_transcript (run [AddFinal ''m'' ''a'' 0]) ''m'' ''   '' 5) = None \<and>
   fst (add_partial_transcript (run [AddFinal ''m'' ''a'' 0]) ''n'' ''   '' 5) = None \<and>
   history_view (snd (add_partial_transcript (run [AddFinal ''m'' ''a'' 0]) ''n'' ''   '' 5)) ''m'' =
     history_view (run [AddFinal ''m'' ''a'' 0]) ''m''"
proof -
  have h: "normalize_text ''   '' = []" by (simp add: exec_defs)
  from h empty_text_no_entry[OF h, of "[AddFinal ''m'' ''a'' 0]" "''m''" 5]
    empty_text_no_entry[OF h, of "[AddFinal ''m'' ''a'' 0]" "''n''" 5]
  show ?thesis by simp
qed

subsection \<open>C7: the history is append-only\<close>

text \<open>
  C7: along calls \<open>cs2\<close> that do not clear meeting \<open>m\<close>, the history of \<open>m\<close> only grows at its
  end: the history before is a prefix of the history after.  In every reachable state the
  recent view is the end of the history.  Hence whatever was in the recent view at some
  moment is, in the same order, part of every later history, also after its eviction from
  the recent view, until the meeting is cleared; and no call changes the text or the
  timestamp of an entry of the history.
\<close>

theorem history_append_only:
  assumes "ClearMeeting m \<notin> set cs2"
  shows "prefix (history_view (run cs1) m) (history_view (run (cs1 @ cs2)) m) \<and>
         suffix (recent_view (run cs1) m) (history_view (run cs1) m) \<and>
         (\<exists>before after.
            history_view (run (cs1 @ cs2)) m = before @ recent_view (run cs1) m @ after) \<and>
         (\<forall>e \<in> set (history_view (run cs1) m).
            entry_objs (run (cs1 @ cs2)) e = entry_objs (run cs1) e)"
proof -
  have P: "prefix (history_view (run cs1) m) (history_view (run (cs1 @ cs2)) m)"
    using history_foldl_prefix[OF invar_run assms, of cs1] by (simp add: run_append)
  have S: "suffix (recent_view (run cs1) m) (history_view (run cs1) m)"
    using invar_run by (rule recent_suffix_history)
  from P obtain after where "history_view (run (cs1 @ cs2)) m = history_view (run cs1) m @ after"
    by (auto simp: prefix_def)
  moreover from S obtain before where "history_view (run cs1) m = before @ recent_view (run cs1) m"
    by (auto simp: suffix_def)
  ultimately have E: "history_view (run (cs1 @ cs2)) m = before @ recent_view (run cs1) m @ after"
    by simp
  have V: "\<forall>e \<in> set (history_view (run cs1) m).
            entry_objs (run (cs1 @ cs2)) e = entry_objs (run cs1) e"
    using history_below_lim[OF invar_run, of _ cs1 m]
    by (simp add: run_append entry_objs_foldl_step)
  from P S E V show ?thesis by blast
qed

text \<open>
  Two entries, then a third and a retrieval that evicts all of them from the recent view:
  the history keeps the three.
\<close>

theorem history_append_only_witness:
  "ClearMeeting ''m'' \<notin> set [AddFinal ''m'' ''c'' 35000, GetRecent ''m'' 100000] \<and>
   recent_view (run [AddFinal ''m'' ''a'' 0, AddFinal ''m'' ''b'' 10000]) ''m'' = [3, 4] \<and>
   recent_view (run ([AddFinal ''m'' ''a'' 0, AddFinal ''m'' ''b'' 10000] @
                     [AddFinal ''m'' ''c'' 35000, GetRecent ''m'' 100000])) ''m'' = [] \<and>
   history_view (run ([AddFinal ''m'' ''a'' 0, AddFinal ''m'' ''b'' 10000] @
                     [AddFinal ''m'' ''c'' 35000, GetRecent ''m'' 100000])) ''m'' = [3, 4, 5] \<and>
   prefix (history_view (run [AddFinal ''m'' ''a'' 0, AddFinal ''m'' ''b'' 10000]) ''m'')
     (history_view (run ([AddFinal ''m'' ''a'' 0, AddFinal ''m'' ''b'' 10000] @
                     [AddFinal ''m'' ''c'' 35000, GetRecent ''m'' 100000])) ''m'')"
proof -
  have h: "ClearMeeting ''m'' \<notin> set [AddFinal ''m'' ''c'' 35000, GetRecent ''m'' 100000]"
    by simp
  have a: "recent_view (run [AddFinal ''m'' ''a'' 0, AddFinal ''m'' ''b'' 10000]) ''m'' = [3, 4]"
    by (simp add: exec_defs)
  have b: "recent_view (run ([AddFinal ''m'' ''a'' 0, AddFinal ''m'' ''b'' 10000] @
                     [AddFinal ''m'' ''c'' 35000, GetRecent ''m'' 100000])) ''m'' = []"
    by (simp add: exec_defs)
  have c: "history_view (run ([AddFinal ''m'' ''a'' 0, AddFinal ''m'' ''b'' 10000] @
                     [AddFinal ''m'' ''c'' 35000, GetRecent ''m'' 100000])) ''m'' = [3, 4, 5]"
    by (simp add: exec_defs)
  from h a b c history_append_only[OF h, of "[AddFinal ''m'' ''a'' 0, AddFinal ''m'' ''b'' 10000]"]
  show ?thesis by simp
qed

subsection \<open>C8: clear, then reuse\<close>

text \<open>
  C8: \<open>clear_meeting\<close> on a meeting without buffer changes nothing.  After a clear the
  meeting has no buffer, both views are empty, and both retrievals return empty lists, as
  they do for every meeting without buffer.  An ingestion that follows registers a buffer
  at a new address, with a new deque and a new list; it produces an entry unless the text
  normalizes to the empty string, both views hold that entry and nothing else, and no
  entry of the history before the clear is in the new history.
\<close>

theorem clear_then_reuse:
  fixes cs m tx ts ad now
  defines "s \<equiv> run cs"
  defines "c \<equiv> clear_meeting s m"
  defines "r \<equiv> store_transcript c m tx ts ad"
  shows "(buffers s m = None \<longrightarrow> c = s) \<and>
         buffers c m = None \<and> recent_view c m = [] \<and> history_view c m = [] \<and>
         contents (snd (get_recent_entries c m now)) (fst (get_recent_entries c m now)) = [] \<and>
         contents (snd (get_full_entries c m)) (fst (get_full_entries c m)) = [] \<and>
         (\<forall>u. buffers s u = None \<longrightarrow>
            contents (snd (get_recent_entries s u now)) (fst (get_recent_entries s u now)) = [] \<and>
            contents (snd (get_full_entries s u)) (fst (get_full_entries s u)) = []) \<and>
         (\<exists>b'. buffers (snd r) m = Some b' \<and>
            (\<forall>b. buffers s m = Some b \<longrightarrow>
               b' \<noteq> b \<and>
               entries (buffer_objs (snd r) b') \<noteq> entries (buffer_objs s b) \<and>
               entries (buffer_objs (snd r) b') \<noteq> full_entries (buffer_objs s b) \<and>
               full_entries (buffer_objs (snd r) b') \<noteq> entries (buffer_objs s b) \<and>
               full_entries (buffer_objs (snd r) b') \<noteq> full_entries (buffer_objs s b))) \<and>
         (fst r = None \<longleftrightarrow> normalize_text tx = []) \<and>
         recent_view (snd r) m = (case fst r of None \<Rightarrow> [] | Some e \<Rightarrow> [e]) \<and>
         history_view (snd r) m = (case fst r of None \<Rightarrow> [] | Some e \<Rightarrow> [e]) \<and>
         set (history_view s m) \<inter> set (history_view (snd r) m) = {}"
proof -
  have I: "invar s" unfolding s_def by (rule invar_run)
  have Ic: "invar c" unfolding c_def using I by (rule invar_clear_meeting)
  have N: "buffers c m = None" unfolding c_def by (rule buffers_clear_meeting)
  have V: "recent_view c m = []" "history_view c m = []"
    using views_unknown[OF N] by simp_all
  have 1: "buffers s m = None \<longrightarrow> c = s" by (simp add: c_def clear_meeting_def)
  have 2: "contents (snd (get_recent_entries c m now)) (fst (get_recent_entries c m now)) = []"
    "contents (snd (get_full_entries c m)) (fst (get_full_entries c m)) = []"
    by (simp_all add: contents_get_recent_entries contents_get_full_entries V)
  have 3: "\<forall>u. buffers s u = None \<longrightarrow>
            contents (snd (get_recent_entries s u now)) (fst (get_recent_entries s u now)) = [] \<and>
            contents (snd (get_full_entries s u)) (fst (get_full_entries s u)) = []"
    by (simp add: contents_get_recent_entries contents_get_full_entries views_unknown)
  have L: "lim c = lim s" unfolding c_def by (rule lim_clear_meeting)
  have B: "buffers (snd r) m = Some (lim s) \<and>
           entries (buffer_objs (snd r) (lim s)) = Suc (lim s) \<and>
           full_entries (buffer_objs (snd r) (lim s)) = Suc (Suc (lim s))"
    by (simp add: r_def store_transcript_new[OF N] L) (simp add: register_new_def L)
  have 4: "\<exists>b'. buffers (snd r) m = Some b' \<and>
            (\<forall>b. buffers s m = Some b \<longrightarrow>
               b' \<noteq> b \<and>
               entries (buffer_objs (snd r) b') \<noteq> entries (buffer_objs s b) \<and>
               entries (buffer_objs (snd r) b') \<noteq> full_entries (buffer_objs s b) \<and>
               full_entries (buffer_objs (snd r) b') \<noteq> entries (buffer_objs s b) \<and>
               full_entries (buffer_objs (snd r) b') \<noteq> full_entries (buffer_objs s b))"
  proof (intro exI conjI allI impI)
    show "buffers (snd r) m = Some (lim s)" using B by simp
  next
    fix b assume "buffers s m = Some b"
    from invarD1[OF I this] B
    show "lim s \<noteq> b"
      and "entries (buffer_objs (snd r) (lim s)) \<noteq> entries (buffer_objs s b)"
      and "entries (buffer_objs (snd r) (lim s)) \<noteq> full_entries (buffer_objs s b)"
      and "full_entries (buffer_objs (snd r) (lim s)) \<noteq> entries (buffer_objs s b)"
      and "full_entries (buffer_objs (snd r) (lim s)) \<noteq> full_entries (buffer_objs s b)"
      by simp_all
  qed
  have 5: "fst r = None \<longleftrightarrow> normalize_text tx = []"
    by (simp add: r_def store_transcript_None_iff V)
  have 6: "recent_view (snd r) m = (case fst r of None \<Rightarrow> [] | Some e \<Rightarrow> [e]) \<and>
           history_view (snd r) m = (case fst r of None \<Rightarrow> [] | Some e \<Rightarrow> [e]) \<and>
           set (history_view s m) \<inter> set (history_view (snd r) m) = {}"
  proof (cases "fst r")
    case None
    from store_transcript_rejected(1,2)[OF Ic None[unfolded r_def], of m] None V show ?thesis
      by (simp add: r_def)
  next
    case (Some e)
    note A = store_transcript_accepted[OF Ic Some[unfolded r_def], of m]
    from A L have "lim s \<le> e" by simp
    with history_below_lim[OF I, of e m] have "e \<notin> set (history_view s m)" by auto
    with A Some V show ?thesis by (simp add: r_def)
  qed
  from 1 N V 2 3 4 5 6 show ?thesis by blast
qed

text \<open>A stored entry, a clear, and a new ingestion; and a clear of an unknown meeting.\<close>

theorem clear_then_reuse_witness:
  "recent_view (clear_meeting (run [AddFinal ''m'' ''a'' 0]) ''m'') ''m'' = [] \<and>
   history_view (run [AddFinal ''m'' ''a'' 0]) ''m'' = [3] \<and>
   buffers (run [AddFinal ''m'' ''a'' 0]) ''m'' = Some 0 \<and>
   buffers (run [AddFinal ''m'' ''a'' 0, ClearMeeting ''m'', AddFinal ''m'' ''a'' 5]) ''m'' = Some 4 \<and>
   history_view (run [AddFinal ''m'' ''a'' 0, ClearMeeting ''m'', AddFinal ''m'' ''a'' 5]) ''m'' = [7] \<and>
   buffers (run [AddFinal ''m'' ''a'' 0]) ''zz'' = None \<and>
   clear_meeting (run [AddFinal ''m'' ''a'' 0]) ''zz'' = run [AddFinal ''m'' ''a'' 0]"
proof -
  note t = clear_then_reuse[of "[AddFinal ''m'' ''a'' 0]" "''m''" 0 "''a''" 5 False]
  note u = clear_then_reuse[of "[AddFinal ''m'' ''a'' 0]" "''zz''" 0 "''a''" 5 False]
  have a: "history_view (run [AddFinal ''m'' ''a'' 0]) ''m'' = [3]" by (simp add: exec_defs)
  have b: "buffers (run [AddFinal ''m'' ''a'' 0]) ''m'' = Some 0" by (simp add: exec_defs)
  have c: "buffers (run [AddFinal ''m'' ''a'' 0, ClearMeeting ''m'', AddFinal ''m'' ''a'' 5]) ''m'' = Some 4"
    by (simp add: exec_defs)
  have d: "history_view (run [AddFinal ''m'' ''a'' 0, ClearMeeting ''m'', AddFinal ''m'' ''a'' 5]) ''m'' = [7]"
    by (simp add: exec_defs)
  have e: "buffers (run [AddFinal ''m'' ''a'' 0]) ''zz'' = None" by (simp add: exec_defs)
  from t have t1: "recent_view (clear_meeting (run [AddFinal ''m'' ''a'' 0]) ''m'') ''m'' = []" by blast
  from u e have u1: "clear_meeting (run [AddFinal ''m'' ''a'' 0]) ''zz'' = run [AddFinal ''m'' ''a'' 0]"
    by blast
  from a b c d e t1 u1 show ?thesis by blast
qed

subsection \<open>C9: meetings are isolated\<close>

text \<open>
  C9: for two distinct meetings \<open>A\<close> and \<open>B\<close> and every reachable state, a call about \<open>A\<close>
  (an ingestion, a clear, an initialization or a retrieval) leaves both views of \<open>B\<close>
  unchanged, as sequences of entry objects and as sequences of values; and an entry stored
  for \<open>A\<close> is, after any further calls, neither in a view
  of \<open>B\<close> nor in a list that a retrieval for \<open>B\<close> returns.
\<close>

theorem meetings_isolated:
  fixes cs A B c tx ts ad cs2 now
  defines "s \<equiv> run cs"
  defines "r \<equiv> store_transcript s A tx ts ad"
  defines "z \<equiv> foldl step (snd r) cs2"
  assumes D: "A \<noteq> B"
  shows "(meeting_of c = A \<longrightarrow>
            recent_view (step s c) B = recent_view s B \<and> history_view (step s c) B = history_view s B \<and>
            map (entry_objs (step s c)) (recent_view (step s c) B) = map (entry_objs s) (recent_view s B) \<and>
            map (entry_objs (step s c)) (history_view (step s c) B) = map (entry_objs s) (history_view s B)) \<and>
         (\<forall>e. fst r = Some e \<longrightarrow>
            e \<notin> set (recent_view z B) \<and> e \<notin> set (history_view z B) \<and>
            e \<notin> set (seq_objs (snd (get_recent_entries z B now)) (fst (get_recent_entries z B now))) \<and>
            e \<notin> set (seq_objs (snd (get_full_entries z B)) (fst (get_full_entries z B))))"
proof -
  have I: "invar s" unfolding s_def by (rule invar_run)
  have 1: "meeting_of c = A \<longrightarrow>
            recent_view (step s c) B = recent_view s B \<and> history_view (step s c) B = history_view s B \<and>
            map (entry_objs (step s c)) (recent_view (step s c) B) = map (entry_objs s) (recent_view s B) \<and>
            map (entry_objs (step s c)) (history_view (step s c) B) = map (entry_objs s) (history_view s B)"
  proof
    assume "meeting_of c = A"
    with D have V: "recent_view (step s c) B = recent_view s B \<and> history_view (step s c) B = history_view s B"
      using views_step_other[OF I, of c B] by auto
    have "map (entry_objs (step s c)) (recent_view s B) = map (entry_objs s) (recent_view s B)"
      using recent_below_lim[OF I, of _ B] by (simp add: entry_objs_step)
    moreover have "map (entry_objs (step s c)) (history_view s B) = map (entry_objs s) (history_view s B)"
      using history_below_lim[OF I, of _ B] by (simp add: entry_objs_step)
    ultimately show "recent_view (step s c) B = recent_view s B \<and> history_view (step s c) B = history_view s B \<and>
            map (entry_objs (step s c)) (recent_view (step s c) B) = map (entry_objs s) (recent_view s B) \<and>
            map (entry_objs (step s c)) (history_view (step s c) B) = map (entry_objs s) (history_view s B)"
      using V by simp
  qed
  have 2: "e \<notin> set (recent_view z B) \<and> e \<notin> set (history_view z B) \<and>
            e \<notin> set (seq_objs (snd (get_recent_entries z B now)) (fst (get_recent_entries z B now))) \<and>
            e \<notin> set (seq_objs (snd (get_full_entries z B)) (fst (get_full_entries z B)))"
    if R: "fst r = Some e" for e
  proof -
    note A = store_transcript_accepted[OF I R[unfolded r_def], of B, folded r_def]
    have Ir: "invar (snd r)" unfolding r_def using I by (rule invar_store_transcript)
    have Iz: "invar z" unfolding z_def using Ir by (rule invar_foldl_step)
    from A have "e < lim (snd r)" by simp
    moreover have "e \<notin> set (history_view (snd r) B)"
      using A D history_below_lim[OF I, of e B] by auto
    ultimately have H: "e \<notin> set (history_view z B)"
      unfolding z_def using Ir allocated_stays_out by blast
    have "set (recent_view z B) \<subseteq> set (history_view z B)"
      using recent_suffix_history[OF Iz, of B] by (auto simp: suffix_def)
    with H have Rv: "e \<notin> set (recent_view z B)" by auto
    have "set (popleft_while (entry_objs z) (now - BUFFER_WINDOW_MS) (recent_view z B))
            \<subseteq> set (recent_view z B)"
      by (rule set_popleft_while)
    with Rv have "e \<notin> set (popleft_while (entry_objs z) (now - BUFFER_WINDOW_MS) (recent_view z B))"
      by auto
    with H Rv show ?thesis
      by (simp only: get_recent_entries_list get_full_entries_list simp_thms)
  qed
  from 1 2 show ?thesis by blast
qed

text \<open>Clearing \<open>a\<close> leaves the history of \<open>b\<close>; an entry of \<open>a\<close> stays out of \<open>b\<close>.\<close>

theorem meetings_isolated_witness:
  "''a'' \<noteq> ''b'' \<and> meeting_of (ClearMeeting ''a'') = ''a'' \<and>
   history_view (run [AddFinal ''b'' ''x'' 0, AddFinal ''a'' ''y'' 1]) ''b'' = [3] \<and>
   history_view (step (run [AddFinal ''b'' ''x'' 0, AddFinal ''a'' ''y'' 1]) (ClearMeeting ''a'')) ''b'' = [3] \<and>
   fst (store_transcript (run [AddFinal ''b'' ''x'' 0, AddFinal ''a'' ''y'' 1]) ''a'' ''z'' 2 True) = Some 8 \<and>
   8 \<notin> set (history_view (foldl step
       (snd (store_transcript (run [AddFinal ''b'' ''x'' 0, AddFinal ''a'' ''y'' 1]) ''a'' ''z'' 2 True))
       [AddFinal ''b'' ''w'' 3]) ''b'')"
proof -
  have h: "''a'' \<noteq> ''b''" by simp
  note t = meetings_isolated[OF h, of "ClearMeeting ''a''" "[AddFinal ''b'' ''x'' 0, AddFinal ''a'' ''y'' 1]"
      "''z''" 2 True "[AddFinal ''b'' ''w'' 3]" 0]
  have m: "meeting_of (ClearMeeting ''a'') = ''a''" by simp
  have a: "history_view (run [AddFinal ''b'' ''x'' 0, AddFinal ''a'' ''y'' 1]) ''b'' = [3]"
    by (simp add: exec_defs)
  have b: "fst (store_transcript (run [AddFinal ''b'' ''x'' 0, AddFinal ''a'' ''y'' 1]) ''a'' ''z'' 2 True) = Some 8"
    by (simp add: exec_defs)
  from t m a have c: "history_view (step (run [AddFinal ''b'' ''x'' 0, AddFinal ''a'' ''y'' 1]) (ClearMeeting ''a'')) ''b'' = [3]"
    by simp
  from t b have d: "8 \<notin> set (history_view (foldl step
       (snd (store_transcript (run [AddFinal ''b'' ''x'' 0, AddFinal ''a'' ''y'' 1]) ''a'' ''z'' 2 True))
       [AddFinal ''b'' ''w'' 3]) ''b'')"
    by blast
  from h m a b c d show ?thesis by blast
qed

subsection \<open>C10: the duplicate check comes before the pruning\<close>

text \<open>
  C10: in one ingestion call the duplicate check of a final fragment comes before the
  pruning.  A final fragment whose normalized text is the text of the last entry of the
  recent view produces no entry and changes nothing, whatever the incoming timestamp: also
  when that last entry is older than the incoming timestamp minus 30000 ms, so that the
  pruning of the same call would have removed it.
\<close>

theorem dedup_before_prune:
  assumes "recent_view s m \<noteq> []"
    and "text (entry_objs s (last (recent_view s m))) = normalize_text txt"
  shows "add_final_transcript s m txt ts = (None, s)"
proof -
  from assms(1) obtain b where "buffers s m = Some b"
    by (auto simp: recent_view_def split: option.splits)
  with assms show ?thesis
    by (simp add: add_final_transcript_def store_transcript_old)
qed

text \<open>
  An entry stored at 0 is the last of the recent view; the same text arrives at 100000.
  The pruning at 100000 would empty the recent view, and the fragment is rejected.
\<close>

theorem dedup_before_prune_witness:
  "recent_view (run [AddFinal ''m'' ''a'' 0]) ''m'' \<noteq> [] \<and>
   text (entry_objs (run [AddFinal ''m'' ''a'' 0]) (last (recent_view (run [AddFinal ''m'' ''a'' 0]) ''m'')))
     = normalize_text ''a'' \<and>
   timestamp (entry_objs (run [AddFinal ''m'' ''a'' 0]) (last (recent_view (run [AddFinal ''m'' ''a'' 0]) ''m'')))
     < 100000 - BUFFER_WINDOW_MS \<and>
   popleft_while (entry_objs (run [AddFinal ''m'' ''a'' 0])) (100000 - BUFFER_WINDOW_MS)
     (recent_view (run [AddFinal ''m'' ''a'' 0]) ''m'') = [] \<and>
   add_final_transcript (run [AddFinal ''m'' ''a'' 0]) ''m'' ''a'' 100000
     = (None, run [AddFinal ''m'' ''a'' 0])"
proof -
  have 1: "recent_view (run [AddFinal ''m'' ''a'' 0]) ''m'' \<noteq> []"
    by (simp add: exec_defs)
  have 2: "text (entry_objs (run [AddFinal ''m'' ''a'' 0]) (last (recent_view (run [AddFinal ''m'' ''a'' 0]) ''m'')))
     = normalize_text ''a''"
    by (simp add: exec_defs)
  have 3: "timestamp (entry_objs (run [AddFinal ''m'' ''a'' 0]) (last (recent_view (run [AddFinal ''m'' ''a'' 0]) ''m'')))
     < 100000 - BUFFER_WINDOW_MS"
    by (simp add: exec_defs)
  have 4: "popleft_while (entry_objs (run [AddFinal ''m'' ''a'' 0])) (100000 - BUFFER_WINDOW_MS)
     (recent_view (run [AddFinal ''m'' ''a'' 0]) ''m'') = []"
    by (simp add: exec_defs)
  from 1 2 3 4 dedup_before_prune[OF 1 2, of 100000] show ?thesis by simp
qed

end
